theory Spec2Isabelle
  imports Main
begin

section \<open>Values, results and observations\<close>

text \<open>
  The repository holds two classes called \<^verbatim>\<open>NodeFlow\<close>: the one of
  \<^verbatim>\<open>examples/bun-react/src/app.tsx\<close> (a \<^verbatim>\<open>Map\<close> of \<^verbatim>\<open>Set\<close>s of listeners,
  \<^verbatim>\<open>init\<close>, \<^verbatim>\<open>change\<close>, built by \<^verbatim>\<open>create\<close>) and the one of
  \<^verbatim>\<open>nodeflow.ts\<close> (an object of listener arrays, built by \<^verbatim>\<open>createNodeFlow\<close>).
  Both are embedded; the definitions of the second carry the prefix \<open>lib_\<close>
  where the names clash.

  A state record is a map from property names to values. The model is by value: the
  identity of a state object is not modelled, only its contents at the moment it is read.
\<close>

datatype val = VNum int | VStr string | VObj "(string \<times> val) list"

type_synonym obj = "string \<rightharpoonup> val"

text \<open>An event payload is \<^verbatim>\<open>any\<close>; for \<^verbatim>\<open>beforeChange\<close> and \<^verbatim>\<open>change\<close> it is the state.\<close>

datatype payload = PState obj | PVal val

text \<open>
  A JavaScript function object stored in the instance (a listener, an api method) is
  compared by reference, so it is a reference here, and its code is looked up in a table
  that the operations take as a parameter.
\<close>

type_synonym fref = nat

datatype exn = Exn string

text \<open>
  A call either returns a value or throws, and in both cases leaves a state behind.
  A call that does not return at all is the value \<open>None\<close> of the surrounding option.
\<close>

datatype ('a, 's) result = Return 'a 's | Raise exn 's

fun inst_of :: "('a, 's) result \<Rightarrow> 's" where
  "inst_of (Return a s) = s"
| "inst_of (Raise x s) = s"

definition bind_result ::
  "('a, 's) result option \<Rightarrow> ('a \<Rightarrow> 's \<Rightarrow> ('b, 's) result option) \<Rightarrow> ('b, 's) result option" where
  "bind_result m k =
     (case m of
        None \<Rightarrow> None
      | Some (Raise x s) \<Rightarrow> Some (Raise x s)
      | Some (Return a s) \<Rightarrow> k a s)"

text \<open>
  What an observer of a run sees: \<open>Fired e d\<close> is a call of \<^verbatim>\<open>emit(e, d)\<close>,
  \<open>Invoked l e d\<close> is the call \<^verbatim>\<open>l(d)\<close> that \<^verbatim>\<open>emit(e, d)\<close> makes for the
  listener \<open>l\<close>. The observations are collected in a trace that is not a field of the class.
\<close>

datatype obs = Fired string payload | Invoked fref string payload

fun is_txn_event :: "obs \<Rightarrow> bool" where
  "is_txn_event (Fired e d) = (e = ''beforeChange'' \<or> e = ''change'')"
| "is_txn_event (Invoked l e d) = False"

section \<open>The class NodeFlow of app.tsx\<close>

text \<open>
  \<^verbatim>\<open>listeners = new Map<keyof E, Set<AnyFunction>>()\<close>: the map takes an event name to a
  \<^verbatim>\<open>Set\<close> object, and a \<^verbatim>\<open>Set\<close> object is mutated in place while
  \<^verbatim>\<open>forEach\<close> runs over it, so the sets live in a store. The contents of a set are
  its \<^verbatim>\<open>[[SetData]]\<close> of ECMAScript: the elements in insertion order, a deleted
  element replaced by the marker \<open>None\<close>.

  The field \<^verbatim>\<open>_init\<close> holds a function; it is a parameter of \<open>init\<close>.
\<close>

record nodeflow =
  state :: obj
  api :: "string \<rightharpoonup> fref"
  initialized :: bool
  changing :: bool
  listeners :: "string \<rightharpoonup> nat"
  setData :: "nat \<Rightarrow> fref option list"
  nsets :: nat
  trace :: "obs list"

type_synonym callback = "nodeflow \<Rightarrow> (unit, nodeflow) result option"

type_synonym handlers = "fref \<Rightarrow> payload \<Rightarrow> callback"

definition new_NodeFlow :: nodeflow where
  "new_NodeFlow =
     \<lparr>state = Map.empty, api = Map.empty, initialized = False, changing = False,
      listeners = Map.empty, setData = (\<lambda>_. []), nsets = 0, trace = []\<rparr>"

text \<open>\<^verbatim>\<open>Set.prototype.add\<close>, \<^verbatim>\<open>delete\<close> and \<^verbatim>\<open>size\<close> on the set data.\<close>

definition set_add :: "fref \<Rightarrow> fref option list \<Rightarrow> fref option list" where
  "set_add h es = (if Some h \<in> set es then es else es @ [Some h])"

definition set_delete :: "fref \<Rightarrow> fref option list \<Rightarrow> fref option list" where
  "set_delete h es = map (\<lambda>e. if e = Some h then None else e) es"

definition set_size :: "fref option list \<Rightarrow> nat" where
  "set_size es = length (filter (\<lambda>e. e \<noteq> None) es)"

text \<open>
  \<^verbatim>\<open>listeners.forEach(listener => listener(data))\<close> on the \<^verbatim>\<open>Set\<close> object \<open>s\<close>,
  from position \<open>idx\<close>: \<^verbatim>\<open>Set.prototype.forEach\<close> reads the set data again after
  every call, so a listener added during the loop is visited and a listener deleted
  before its turn is not. The loop need not end.
\<close>

partial_function (option) forEach ::
  "handlers \<Rightarrow> string \<Rightarrow> payload \<Rightarrow> nat \<Rightarrow> nat \<Rightarrow> nodeflow \<Rightarrow> (unit, nodeflow) result option" where
  "forEach H type data s idx i =
     (if idx < length (setData i s) then
        (case setData i s ! idx of
           None \<Rightarrow> forEach H type data s (idx + 1) i
         | Some listener \<Rightarrow>
             (case H listener data (i\<lparr>trace := trace i @ [Invoked listener type data]\<rparr>) of
                None \<Rightarrow> None
              | Some (Raise x i') \<Rightarrow> Some (Raise x i')
              | Some (Return u i') \<Rightarrow> forEach H type data s (idx + 1) i'))
      else Some (Return () i))"

definition emit :: "handlers \<Rightarrow> string \<Rightarrow> payload \<Rightarrow> callback" where
  "emit H type data i =
     (let i1 = i\<lparr>trace := trace i @ [Fired type data]\<rparr> in
      case listeners i1 type of
        None \<Rightarrow> Some (Return () i1)
      | Some s \<Rightarrow> forEach H type data s 0 i1)"

definition off :: "string \<Rightarrow> fref \<Rightarrow> nodeflow \<Rightarrow> nodeflow" where
  "off type handler i =
     (case listeners i type of
        None \<Rightarrow> i
      | Some s \<Rightarrow>
          (let i1 = i\<lparr>setData := (setData i)(s := set_delete handler (setData i s))\<rparr> in
           if set_size (setData i1 s) = 0
           then i1\<lparr>listeners := (listeners i1)(type := None)\<rparr>
           else i1))"

text \<open>\<open>on\<close> returns the closure \<^verbatim>\<open>() => this.off(type, handler)\<close> and the instance.\<close>

definition on :: "string \<Rightarrow> fref \<Rightarrow> nodeflow \<Rightarrow> callback \<times> nodeflow" where
  "on type handler i =
     (let (s, i1) =
        (case listeners i type of
           Some s \<Rightarrow> (s, i)
         | None \<Rightarrow> (nsets i, i\<lparr>setData := (setData i)(nsets i := []), nsets := nsets i + 1\<rparr>));
          i2 = i1\<lparr>setData := (setData i1)(s := set_add handler (setData i1 s))\<rparr>;
          i3 = i2\<lparr>listeners := (listeners i2)(type \<mapsto> s)\<rparr>
      in (\<lambda>j. Some (Return () (off type handler j)), i3))"

definition change :: "handlers \<Rightarrow> callback \<Rightarrow> callback" where
  "change H callback i =
     (if changing i then callback i
      else
        (let i1 = i\<lparr>changing := True\<rparr> in
         bind_result (emit H ''beforeChange'' (PState (state i1)) i1) (\<lambda>_ i2.
         bind_result (callback i2) (\<lambda>_ i3.
         bind_result (emit H ''change'' (PState (state i3)) i3) (\<lambda>_ i4.
         Some (Return () (i4\<lparr>changing := False\<rparr>)))))))"

text \<open>An init thunk \<^verbatim>\<open>() => () => void\<close> returns its cleanup.\<close>

type_synonym thunk = "nodeflow \<Rightarrow> (callback, nodeflow) result option"

definition noop :: callback where
  "noop i = Some (Return () i)"

definition default_init :: thunk where
  "default_init i = Some (Return noop i)"

definition init :: "thunk \<Rightarrow> callback" where
  "init init_field i =
     (if \<not> initialized i
      then bind_result (init_field (i\<lparr>initialized := True\<rparr>)) (\<lambda>_ j. Some (Return () j))
      else Some (Return () i))"

section \<open>The composer create of app.tsx\<close>

text \<open>
  A plugin is a function of the instance under construction that returns
  \<^verbatim>\<open>{state, api, init}\<close>. It is called with the handle of the instance, so it may
  have effects on it and it may throw.
\<close>

record descr =
  plugin_state :: obj
  plugin_api :: "string \<rightharpoonup> fref"
  plugin_init :: thunk

type_synonym plugin = "nodeflow \<Rightarrow> (descr, nodeflow) result option"


text \<open>\<^verbatim>\<open>inits.map(init => init())\<close> and \<^verbatim>\<open>cleanups.forEach(cleanup => cleanup())\<close>.\<close>

fun run_inits :: "thunk list \<Rightarrow> nodeflow \<Rightarrow> (callback list, nodeflow) result option" where
  "run_inits [] i = Some (Return [] i)"
| "run_inits (init0 # inits) i =
     bind_result (init0 i) (\<lambda>c j.
     bind_result (run_inits inits j) (\<lambda>cs k. Some (Return (c # cs) k)))"

fun run_cleanups :: "callback list \<Rightarrow> callback" where
  "run_cleanups [] i = Some (Return () i)"
| "run_cleanups (cleanup # cleanups) i =
     bind_result (cleanup i) (\<lambda>_ j. run_cleanups cleanups j)"

text \<open>The function that \<open>create\<close> stores in \<^verbatim>\<open>instance._init\<close>.\<close>

definition composed_init :: "thunk list \<Rightarrow> thunk" where
  "composed_init inits i =
     bind_result (run_inits inits i) (\<lambda>cs j.
       let cleanups = rev cs in Some (Return (run_cleanups cleanups) j))"


section \<open>The class NodeFlow of nodeflow.ts and createNodeFlow\<close>

text \<open>
  \<^verbatim>\<open>listeners: { [K in keyof E]?: ((payload: E[K]) => void)[] }\<close>. An array of listeners
  is only ever extended by \<^verbatim>\<open>push\<close> (\<open>lib_on\<close>) or replaced by a fresh array
  (\<open>lib_off\<close>), and \<^verbatim>\<open>Array.prototype.forEach\<close> fixes the length before its first
  call, so the loop of \<open>lib_emit\<close> runs over the elements the array had when it started:
  the arrays are values here.

  The object \<^verbatim>\<open>listeners\<close> is a plain \<^verbatim>\<open>{}\<close>, so reading
  \<^verbatim>\<open>this.listeners[event]\<close> for an event name that is a property name of
  \<^verbatim>\<open>Object.prototype\<close> and not an own key gives the inherited value: a function or
  an object, which is truthy and has no \<^verbatim>\<open>push\<close>, \<^verbatim>\<open>filter\<close> or
  \<^verbatim>\<open>forEach\<close>. \<open>Inherited\<close> stands for such a value, \<open>Arr\<close> for an array of
  listeners, and \<open>lib_get\<close> is the property read. Calling a missing method throws a
  \<^verbatim>\<open>TypeError\<close>.

  The methods \<^verbatim>\<open>addNode\<close> and \<^verbatim>\<open>addEdge\<close> that \<open>createNodeFlow\<close> contributes are
  the references \<open>CoreAddNode\<close> and \<open>CoreAddEdge\<close>.
\<close>

datatype api_fn = CoreAddNode | CoreAddEdge | PluginMethod fref

datatype slot = Arr "fref list" | Inherited

definition object_prototype_names :: "string list" where
  "object_prototype_names =
     [''constructor'', ''hasOwnProperty'', ''isPrototypeOf'', ''propertyIsEnumerable'',
      ''toLocaleString'', ''toString'', ''valueOf'', ''__proto__'',
      ''__defineGetter__'', ''__defineSetter__'', ''__lookupGetter__'', ''__lookupSetter__'']"

record lib_nodeflow =
  lib_state :: obj
  lib_api :: "string \<rightharpoonup> api_fn"
  lib_listeners :: "string \<rightharpoonup> slot"
  lib_trace :: "obs list"

type_synonym lib_callback = "lib_nodeflow \<Rightarrow> (unit, lib_nodeflow) result option"

type_synonym lib_handlers = "fref \<Rightarrow> payload \<Rightarrow> lib_callback"

definition lib_get :: "lib_nodeflow \<Rightarrow> string \<Rightarrow> slot option" where
  "lib_get i event =
     (case lib_listeners i event of
        Some v \<Rightarrow> Some v
      | None \<Rightarrow> if event \<in> set object_prototype_names then Some Inherited else None)"

text \<open>
  What a method hands back to its caller: \<^verbatim>\<open>undefined\<close> (the method is declared
  \<^verbatim>\<open>void\<close>) or a function. \<open>invoke v\<close> is the call \<^verbatim>\<open>v()\<close> of such a value.
\<close>

datatype 's returned = Undefined | Closure "'s \<Rightarrow> (unit, 's) result option"

fun invoke :: "'s returned \<Rightarrow> 's \<Rightarrow> (unit, 's) result option" where
  "invoke Undefined i = Some (Raise (Exn ''TypeError'') i)"
| "invoke (Closure f) i = f i"

text \<open>
  \<^verbatim>\<open>(this.listeners[event] = this.listeners[event] || []).push(listener)\<close>: every value
  that can be read is truthy; the assignment stores the value read under the own key
  (for \<^verbatim>\<open>__proto__\<close> it runs the setter of the prototype, which changes nothing);
  then \<^verbatim>\<open>push\<close> is called on it. The method returns nothing.
\<close>

definition lib_on :: "string \<Rightarrow> fref \<Rightarrow> lib_nodeflow \<Rightarrow> (lib_nodeflow returned, lib_nodeflow) result" where
  "lib_on event listener i =
     (case lib_get i event of
        None \<Rightarrow> Return Undefined (i\<lparr>lib_listeners := (lib_listeners i)(event \<mapsto> Arr [listener])\<rparr>)
      | Some (Arr ls) \<Rightarrow>
          Return Undefined (i\<lparr>lib_listeners := (lib_listeners i)(event \<mapsto> Arr (ls @ [listener]))\<rparr>)
      | Some Inherited \<Rightarrow>
          Raise (Exn ''TypeError'')
            (if event = ''__proto__'' then i
             else i\<lparr>lib_listeners := (lib_listeners i)(event \<mapsto> Inherited)\<rparr>))"

definition lib_off :: "string \<Rightarrow> fref \<Rightarrow> lib_nodeflow \<Rightarrow> (unit, lib_nodeflow) result" where
  "lib_off event listener i =
     (case lib_get i event of
        None \<Rightarrow> Return () i
      | Some (Arr ls) \<Rightarrow>
          Return () (i\<lparr>lib_listeners := (lib_listeners i)(event \<mapsto> Arr (filter (\<lambda>l. l \<noteq> listener) ls))\<rparr>)
      | Some Inherited \<Rightarrow> Raise (Exn ''TypeError'') i)"

fun lib_forEach :: "lib_handlers \<Rightarrow> string \<Rightarrow> payload \<Rightarrow> fref list \<Rightarrow> lib_callback" where
  "lib_forEach H event p [] i = Some (Return () i)"
| "lib_forEach H event p (l # ls) i =
     bind_result (H l p (i\<lparr>lib_trace := lib_trace i @ [Invoked l event p]\<rparr>)) (\<lambda>_ j.
       lib_forEach H event p ls j)"

definition lib_emit :: "lib_handlers \<Rightarrow> string \<Rightarrow> payload \<Rightarrow> lib_callback" where
  "lib_emit H event p i =
     (let i1 = i\<lparr>lib_trace := lib_trace i @ [Fired event p]\<rparr> in
      case lib_get i1 event of
        None \<Rightarrow> Some (Return () i1)
      | Some (Arr ls) \<Rightarrow> lib_forEach H event p ls i1
      | Some Inherited \<Rightarrow> Some (Raise (Exn ''TypeError'') i1))"

text \<open>
  An api factory is called in the constructor with a context that reaches the instance
  (\<^verbatim>\<open>getState\<close>, \<^verbatim>\<open>setState\<close>, \<^verbatim>\<open>getApi\<close>, \<^verbatim>\<open>emit\<close>), so it may have
  effects on it and it may throw.
\<close>

type_synonym factory = "lib_nodeflow \<Rightarrow> (string \<rightharpoonup> api_fn, lib_nodeflow) result option"

record lib_plugin =
  name :: string
  pstate :: "obj option"
  papi :: "factory option"

text \<open>\<^verbatim>\<open>apiFactories.map(factory => factory(context))\<close>.\<close>

fun run_factories :: "factory list \<Rightarrow> lib_nodeflow \<Rightarrow> ((string \<rightharpoonup> api_fn) list, lib_nodeflow) result option" where
  "run_factories [] i = Some (Return [] i)"
| "run_factories (f # fs) i =
     bind_result (f i) (\<lambda>a j.
     bind_result (run_factories fs j) (\<lambda>as k. Some (Return (a # as) k)))"

definition lib_constructor :: "obj \<Rightarrow> factory list \<Rightarrow> (unit, lib_nodeflow) result option" where
  "lib_constructor initialState apiFactories =
     bind_result
       (run_factories apiFactories
          \<lparr>lib_state = initialState, lib_api = Map.empty, lib_listeners = Map.empty, lib_trace = []\<rparr>)
       (\<lambda>allApis i. Some (Return () (i\<lparr>lib_api := foldl (++) (lib_api i) allApis\<rparr>)))"

definition coreState :: obj where
  "coreState = [''nodes'' \<mapsto> VObj [], ''edges'' \<mapsto> VObj []]"

definition coreApiFactory :: factory where
  "coreApiFactory i = Some (Return [''addNode'' \<mapsto> CoreAddNode, ''addEdge'' \<mapsto> CoreAddEdge] i)"

definition createNodeFlow :: "lib_plugin list \<Rightarrow> (unit, lib_nodeflow) result option" where
  "createNodeFlow plugins =
     (let initialPluginState =
            foldl (\<lambda>acc plugin. acc ++ (case pstate plugin of None \<Rightarrow> Map.empty | Some s \<Rightarrow> s))
              Map.empty plugins;
          initialState = coreState ++ initialPluginState;
          apiFactories = coreApiFactory # List.map_filter (\<lambda>p. papi p) plugins
      in lib_constructor initialState apiFactories)"

section \<open>Notions used in the statements\<close>

text \<open>
  The listeners registered for an event: the elements of its \<^verbatim>\<open>Set\<close> in the order
  in which \<^verbatim>\<open>forEach\<close> visits them, respectively the elements of its array.
\<close>

definition registered :: "nodeflow \<Rightarrow> string \<Rightarrow> fref list" where
  "registered i type =
     (case listeners i type of None \<Rightarrow> [] | Some s \<Rightarrow> List.map_filter (\<lambda>e. e) (setData i s))"

definition lib_registered :: "lib_nodeflow \<Rightarrow> string \<Rightarrow> fref list" where
  "lib_registered i event = (case lib_get i event of Some (Arr ls) \<Rightarrow> ls | _ \<Rightarrow> [])"

text \<open>The instance that a call of \<open>lib_on\<close>, of \<open>lib_off\<close> leaves.\<close>

definition lib_on_inst :: "string \<Rightarrow> fref \<Rightarrow> lib_nodeflow \<Rightarrow> lib_nodeflow" where
  "lib_on_inst event listener i = inst_of (lib_on event listener i)"

definition lib_off_inst :: "string \<Rightarrow> fref \<Rightarrow> lib_nodeflow \<Rightarrow> lib_nodeflow" where
  "lib_off_inst event listener i = inst_of (lib_off event listener i)"

text \<open>
  The registry of app.tsx is well formed when every event name in the map has a
  \<^verbatim>\<open>Set\<close> object of its own, allocated, with at least one element.
\<close>

definition registry_ok :: "nodeflow \<Rightarrow> bool" where
  "registry_ok i \<longleftrightarrow>
     (\<forall>t s. listeners i t = Some s \<longrightarrow> s < nsets i \<and> set_size (setData i s) \<noteq> 0) \<and>
     (\<forall>t t' s. listeners i t = Some s \<longrightarrow> listeners i t' = Some s \<longrightarrow> t = t')"

text \<open>
  \<open>quiet_ext t t'\<close>: the trace \<open>t'\<close> continues \<open>t\<close>, and what was added holds no firing
  of \<^verbatim>\<open>beforeChange\<close> or \<^verbatim>\<open>change\<close>.

  A callback or listener is \<open>coalesced\<close> when, run while a change is in progress and
  returning normally, it leaves the private flag \<^verbatim>\<open>changing\<close> set and fires no
  \<^verbatim>\<open>beforeChange\<close> or \<^verbatim>\<open>change\<close> event itself. Code outside the class cannot
  reach the flag, and the class fires these two events in \<open>change\<close> only, so this is
  every callback that does not call \<^verbatim>\<open>emit('beforeChange', ...)\<close> or
  \<^verbatim>\<open>emit('change', ...)\<close> directly; it may write the state, call \<open>change\<close> again
  (lemma \<open>coalesced_change\<close>) and run one callback after another
  (lemma \<open>coalesced_then_call\<close>).
\<close>

definition quiet_ext :: "obs list \<Rightarrow> obs list \<Rightarrow> bool" where
  "quiet_ext t t' \<longleftrightarrow> (\<exists>ext. t' = t @ ext \<and> filter is_txn_event ext = [])"

definition coalesced :: "callback \<Rightarrow> bool" where
  "coalesced f \<longleftrightarrow>
     (\<forall>i u j. changing i \<longrightarrow> f i = Some (Return u j) \<longrightarrow>
        changing j \<and> quiet_ext (trace i) (trace j))"

text \<open>A listener that does not write the state.\<close>

definition keeps_state :: "callback \<Rightarrow> bool" where
  "keeps_state f \<longleftrightarrow> (\<forall>i u j. f i = Some (Return u j) \<longrightarrow> state j = state i)"

text \<open>\<^verbatim>\<open>() => { f(); g() }\<close> and \<^verbatim>\<open>() => { state.k = v }\<close>.\<close>

definition then_call :: "callback \<Rightarrow> callback \<Rightarrow> callback" where
  "then_call f g i = bind_result (f i) (\<lambda>_ j. g j)"

definition set_key :: "string \<Rightarrow> val \<Rightarrow> callback" where
  "set_key k v i = Some (Return () (i\<lparr>state := (state i)(k \<mapsto> v)\<rparr>))"

text \<open>
  \<open>not_called h type t t'\<close>: the trace \<open>t'\<close> continues \<open>t\<close>, and what was added holds no
  call of the listener \<open>h\<close> for the event \<open>type\<close>.

  A listener \<open>leaves_unregistered h type\<close> when, run on an instance in which \<open>h\<close> is not
  registered for \<open>type\<close>, it does not put \<open>h\<close> into any set of listeners, leaves \<open>h\<close>
  unregistered for \<open>type\<close>, and causes no call of \<open>h\<close> for \<open>type\<close>: it does not register
  \<open>h\<close> again.
\<close>

definition not_called :: "fref \<Rightarrow> string \<Rightarrow> obs list \<Rightarrow> obs list \<Rightarrow> bool" where
  "not_called h type t t' \<longleftrightarrow> (\<exists>ext. t' = t @ ext \<and> (\<forall>d. Invoked h type d \<notin> set ext))"

definition leaves_unregistered :: "fref \<Rightarrow> string \<Rightarrow> callback \<Rightarrow> bool" where
  "leaves_unregistered h type f \<longleftrightarrow>
     (\<forall>j r. f j = Some r \<longrightarrow> h \<notin> set (registered j type) \<longrightarrow>
        (\<forall>s. Some h \<notin> set (setData j s) \<longrightarrow> Some h \<notin> set (setData (inst_of r) s)) \<and>
        h \<notin> set (registered (inst_of r) type) \<and>
        (\<exists>ext. trace (inst_of r) = trace j @ ext \<and> (\<forall>d. Invoked h type d \<notin> set ext)))"

definition lib_leaves_unregistered :: "fref \<Rightarrow> string \<Rightarrow> lib_callback \<Rightarrow> bool" where
  "lib_leaves_unregistered h event f \<longleftrightarrow>
     (\<forall>j r. f j = Some r \<longrightarrow> h \<notin> set (lib_registered j event) \<longrightarrow>
        h \<notin> set (lib_registered (inst_of r) event) \<and>
        (\<exists>ext. lib_trace (inst_of r) = lib_trace j @ ext \<and> (\<forall>d. Invoked h event d \<notin> set ext)))"

text \<open>
  The order of the plugin lifecycle, stated on its own. \<open>thunks_ran inits i cs j\<close>: from
  the instance \<open>i\<close>, the init thunks were called one after the other, the first of the list
  first, each once, each returned normally, the thunk at position \<open>n\<close> returned the cleanup
  at position \<open>n\<close> of \<open>cs\<close>, and the last left the instance \<open>j\<close>.
  \<open>cleanups_ran_backwards cs i k\<close>: from the instance \<open>i\<close>, the cleanups of \<open>cs\<close>, listed in
  registration order, were called one after the other, the last of the list first, each
  once, each returned normally, and the first of the list left the instance \<open>k\<close>.
\<close>

inductive thunks_ran :: "thunk list \<Rightarrow> nodeflow \<Rightarrow> callback list \<Rightarrow> nodeflow \<Rightarrow> bool" where
  none: "thunks_ran [] i [] i"
| first: "init0 i = Some (Return c j) \<Longrightarrow> thunks_ran inits j cs k \<Longrightarrow>
     thunks_ran (init0 # inits) i (c # cs) k"

inductive cleanups_ran_backwards :: "callback list \<Rightarrow> nodeflow \<Rightarrow> nodeflow \<Rightarrow> bool" where
  none: "cleanups_ran_backwards [] i i"
| last_first: "c i = Some (Return () j) \<Longrightarrow> cleanups_ran_backwards cs j k \<Longrightarrow>
     cleanups_ran_backwards (cs @ [c]) i k"

text \<open>
  \<open>loop_reaches H type data s idx i idx' i'\<close>: the loop of \<open>emit\<close> over the set \<open>s\<close>, at the
  position \<open>idx\<close> with the instance \<open>i\<close>, arrives at the position \<open>idx'\<close> with the instance
  \<open>i'\<close>, every listener called on the way having returned normally.
\<close>

inductive loop_reaches ::
  "handlers \<Rightarrow> string \<Rightarrow> payload \<Rightarrow> nat \<Rightarrow> nat \<Rightarrow> nodeflow \<Rightarrow> nat \<Rightarrow> nodeflow \<Rightarrow> bool"
  for H type data s where
  here: "loop_reaches H type data s idx i idx i"
| skip: "idx < length (setData i s) \<Longrightarrow> setData i s ! idx = None \<Longrightarrow>
     loop_reaches H type data s (idx + 1) i idx' i' \<Longrightarrow>
     loop_reaches H type data s idx i idx' i'"
| call: "idx < length (setData i s) \<Longrightarrow> setData i s ! idx = Some l \<Longrightarrow>
     H l data (i\<lparr>trace := trace i @ [Invoked l type data]\<rparr>) = Some (Return u k) \<Longrightarrow>
     loop_reaches H type data s (idx + 1) k idx' i' \<Longrightarrow>
     loop_reaches H type data s idx i idx' i'"

text \<open>\<open>n\<close> calls of a callback, one after the other.\<close>

fun repeat_call :: "nat \<Rightarrow> callback \<Rightarrow> callback" where
  "repeat_call 0 f i = Some (Return () i)"
| "repeat_call (Suc n) f i = bind_result (f i) (\<lambda>_ j. repeat_call n f j)"









section \<open>Concrete instances and callbacks\<close>

text \<open>The listener 1 throws; every other listener \<open>l\<close> writes \<open>l\<close> to the key \<^verbatim>\<open>last\<close>.\<close>

definition example_handlers :: handlers where
  "example_handlers l d i =
     (if l = 1 then Some (Raise (Exn ''boom'') i)
      else Some (Return () (i\<lparr>state := (state i)(''last'' \<mapsto> VNum (int l))\<rparr>)))"

definition lib_example_handlers :: lib_handlers where
  "lib_example_handlers l d i =
     (if l = 1 then Some (Raise (Exn ''boom'') i)
      else Some (Return () (i\<lparr>lib_state := (lib_state i)(''last'' \<mapsto> VNum (int l))\<rparr>)))"

text \<open>The instance that \<^verbatim>\<open>createNodeFlow([])\<close> returns.\<close>

definition lib_fresh :: lib_nodeflow where
  "lib_fresh = inst_of (the (createNodeFlow []))"

text \<open>Listeners that only observe.\<close>

definition silent_handlers :: handlers where
  "silent_handlers l d i = Some (Return () i)"


definition counter0 :: nodeflow where
  "counter0 =
     snd (on ''change'' 3 (snd (on ''beforeChange'' 2 (new_NodeFlow\<lparr>state := [''count'' \<mapsto> VNum 0]\<rparr>))))"


definition increment_count :: callback where
  "increment_count i =
     (case state i ''count'' of
        Some (VNum n) \<Rightarrow> Some (Return () (i\<lparr>state := (state i)(''count'' \<mapsto> VNum (n + 1))\<rparr>))
      | _ \<Rightarrow> Some (Raise (Exn ''TypeError'') i))"

definition throwing :: callback where
  "throwing i = Some (Raise (Exn ''boom'') i)"

text \<open>Instances with the listeners 1 and 2, respectively the listener 3, on \<^verbatim>\<open>ping\<close>.\<close>

definition both :: nodeflow where
  "both = snd (on ''ping'' 2 (snd (on ''ping'' 1 new_NodeFlow)))"

definition lib_both :: lib_nodeflow where
  "lib_both = lib_on_inst ''ping'' 2 (lib_on_inst ''ping'' 1 lib_fresh)"

text \<open>Instances with the listeners 2, 1 and 3 on \<^verbatim>\<open>ping\<close>, registered in this order.\<close>

definition three :: nodeflow where
  "three = snd (on ''ping'' 3 (snd (on ''ping'' 1 (snd (on ''ping'' 2 new_NodeFlow)))))"

definition lib_three :: lib_nodeflow where
  "lib_three = lib_on_inst ''ping'' 3 (lib_on_inst ''ping'' 1 (lib_on_inst ''ping'' 2 lib_fresh))"

definition pinged :: nodeflow where
  "pinged = snd (on ''ping'' 3 new_NodeFlow)"

definition lib_pinged :: lib_nodeflow where
  "lib_pinged = lib_on_inst ''ping'' 3 lib_fresh"

text \<open>
  A plugin whose init appends \<^verbatim>\<open>i\<close> and its name to the key \<^verbatim>\<open>order\<close> and whose
  cleanup appends \<^verbatim>\<open>c\<close> and its name; an init thunk that counts its calls in the key
  \<^verbatim>\<open>runs\<close>.
\<close>

definition append_order :: "string \<Rightarrow> callback" where
  "append_order w i =
     Some (Return () (i\<lparr>state := (state i)(''order'' \<mapsto>
       VStr ((case state i ''order'' of Some (VStr v) \<Rightarrow> v | _ \<Rightarrow> []) @ w))\<rparr>))"

definition probe :: "string \<Rightarrow> thunk" where
  "probe n i = bind_result (append_order (''i'' @ n) i) (\<lambda>_ j. Some (Return (append_order (''c'' @ n)) j))"

definition count_run :: thunk where
  "count_run i =
     Some (Return noop (i\<lparr>state := (state i)(''runs'' \<mapsto>
       VNum ((case state i ''runs'' of Some (VNum n) \<Rightarrow> n | _ \<Rightarrow> 0) + 1))\<rparr>))"

definition order_of :: "nodeflow \<Rightarrow> string" where
  "order_of i = (case state i ''order'' of Some (VStr v) \<Rightarrow> v | _ \<Rightarrow> [])"

definition with_order :: "string \<Rightarrow> nodeflow" where
  "with_order v = new_NodeFlow\<lparr>state := [''order'' \<mapsto> VStr v]\<rparr>"

definition with_runs :: "int \<Rightarrow> nodeflow" where
  "with_runs n = new_NodeFlow\<lparr>state := [''runs'' \<mapsto> VNum n], initialized := True\<rparr>"



section \<open>The event bus\<close>

lemma map_filter_id_Nil: "List.map_filter (\<lambda>e. e) es = [] \<Longrightarrow> e \<in> set es \<Longrightarrow> e = None"
  by (induction es) (auto simp: List.map_filter_simps split: option.splits)

lemma set_map_filter_id: "set (List.map_filter (\<lambda>e. e) es) = {l. Some l \<in> set es}"
  by (induction es) (auto simp: List.map_filter_simps split: option.splits)

lemma forEach_deleted_only:
  "(\<And>k. idx \<le> k \<Longrightarrow> k < length (setData i s) \<Longrightarrow> setData i s ! k = None)
   \<Longrightarrow> forEach H type data s idx i = Some (Return () i)"
proof (induction "length (setData i s) - idx" arbitrary: idx)
  case 0
  then show ?case by (subst forEach.simps) simp
next
  case (Suc n)
  then have lt: "idx < length (setData i s)" by simp
  have none: "setData i s ! idx = None" using Suc.prems lt by simp
  have "forEach H type data s (idx + 1) i = Some (Return () i)"
    using Suc.hyps(1) [of "idx + 1"] Suc.hyps(2) Suc.prems by simp
  then show ?case using lt none by (subst forEach.simps) simp
qed

lemma lib_fresh_eq:
  "lib_fresh =
     \<lparr>lib_state = coreState,
      lib_api = [''addNode'' \<mapsto> CoreAddNode, ''addEdge'' \<mapsto> CoreAddEdge],
      lib_listeners = Map.empty, lib_trace = []\<rparr>"
  by (simp add: lib_fresh_def createNodeFlow_def lib_constructor_def coreApiFactory_def
      bind_result_def List.map_filter_simps)

lemmas lib_eval = lib_on_inst_def lib_off_inst_def lib_on_def lib_off_def lib_get_def
  object_prototype_names_def

text \<open>
  An \<open>emit\<close> for an event that has no registered listener returns normally, calls no
  listener, and leaves the instance as it was, with the observation of the call itself as
  the only addition to the trace: in the class of app.tsx for every event name (the event
  is not in the map, or its set holds deleted elements only), in the class of nodeflow.ts
  when the entry of the event is absent or an empty array.
\<close>

lemma emit_without_listeners:
  "(registered i type = [] \<longrightarrow>
      emit H type data i = Some (Return () (i\<lparr>trace := trace i @ [Fired type data]\<rparr>)))
   \<and> (lib_registered i' event = [] \<and> lib_get i' event \<noteq> Some Inherited \<longrightarrow>
      lib_emit H' event p i' = Some (Return () (i'\<lparr>lib_trace := lib_trace i' @ [Fired event p]\<rparr>)))"
proof (intro conjI impI)
  assume r: "registered i type = []"
  let ?i1 = "i\<lparr>trace := trace i @ [Fired type data]\<rparr>"
  show "emit H type data i = Some (Return () ?i1)"
  proof (cases "listeners i type")
    case None
    then show ?thesis by (simp add: emit_def)
  next
    case (Some s)
    then have "List.map_filter (\<lambda>e. e) (setData ?i1 s) = []"
      using r by (simp add: registered_def)
    then have "\<And>k. k < length (setData ?i1 s) \<Longrightarrow> setData ?i1 s ! k = None"
      using map_filter_id_Nil nth_mem by blast
    then have "forEach H type data s 0 ?i1 = Some (Return () ?i1)"
      by (intro forEach_deleted_only) simp
    then show ?thesis using Some by (simp add: emit_def)
  qed
next
  assume r: "lib_registered i' event = [] \<and> lib_get i' event \<noteq> Some Inherited"
  have "lib_get (i'\<lparr>lib_trace := lib_trace i' @ [Fired event p]\<rparr>) event = lib_get i' event"
    by (simp add: lib_get_def)
  then show "lib_emit H' event p i' = Some (Return () (i'\<lparr>lib_trace := lib_trace i' @ [Fired event p]\<rparr>))"
    using r by (auto simp: lib_emit_def lib_registered_def split: option.splits slot.splits)
qed

text \<open>
  C10. The code does not do what the claim says on the class of nodeflow.ts: for an event
  name that is a property name of \<^verbatim>\<open>Object.prototype\<close>, such as
  \<^verbatim>\<open>constructor\<close>, no listener is registered on a new instance, and \<open>lib_emit\<close> throws
  a \<^verbatim>\<open>TypeError\<close>; the class of app.tsx, which keeps the listeners in a
  \<^verbatim>\<open>Map\<close>, returns normally for the same event.
\<close>

theorem lib_emit_throws_for_inherited_name:
  "lib_registered lib_fresh ''constructor'' = []
   \<and> lib_emit lib_example_handlers ''constructor'' (PVal (VNum 7)) lib_fresh =
       Some (Raise (Exn ''TypeError'') (lib_fresh\<lparr>lib_trace := [Fired ''constructor'' (PVal (VNum 7))]\<rparr>))
   \<and> registered new_NodeFlow ''constructor'' = []
   \<and> emit example_handlers ''constructor'' (PVal (VNum 7)) new_NodeFlow =
       Some (Return () (new_NodeFlow\<lparr>trace := [Fired ''constructor'' (PVal (VNum 7))]\<rparr>))"
  by (simp add: lib_registered_def lib_emit_def lib_get_def object_prototype_names_def lib_fresh_eq
      registered_def emit_def new_NodeFlow_def)

lemma set_size_add: "0 < set_size (set_add h es)"
  by (auto simp: set_size_def set_add_def filter_empty_conv)

lemma set_size_delete_only:
  "(\<And>e. e \<in> set es \<Longrightarrow> e = None \<or> e = Some h) \<Longrightarrow> set_size (set_delete h es) = 0"
  by (auto simp: set_size_def set_delete_def filter_empty_conv)

lemma set_size_delete_last:
  "List.map_filter (\<lambda>e. e) es = [h] \<Longrightarrow> set_size (set_delete h es) = 0"
proof (rule set_size_delete_only)
  fix e assume a: "List.map_filter (\<lambda>e. e) es = [h]" "e \<in> set es"
  have "{l. Some l \<in> set es} = {h}" using set_map_filter_id [of es] a(1) by simp
  then show "e = None \<or> e = Some h" using a(2) by (cases e) auto
qed

lemma off_removes_key:
  "registered i type = [handler] \<Longrightarrow> listeners (off type handler i) type = None"
  by (auto simp: registered_def off_def Let_def set_size_delete_last List.map_filter_simps
      split: option.splits)

lemma registry_ok_new: "registry_ok new_NodeFlow"
  by (simp add: registry_ok_def new_NodeFlow_def)

lemma registry_ok_off: "registry_ok i \<Longrightarrow> registry_ok (off type handler i)"
  unfolding registry_ok_def off_def Let_def
  by (auto split: option.splits if_splits)

lemma registry_ok_on: "registry_ok i \<Longrightarrow> registry_ok (snd (on type handler i))"
  unfolding registry_ok_def on_def Let_def
  by (auto simp: set_size_add less_Suc_eq split: option.splits if_splits)

text \<open>
  C9, as the claim states it, fails on the class of nodeflow.ts: \<open>lib_off\<close> stores the
  filtered array, so after the only listener of an event is removed the event is left with
  an empty array.
\<close>

theorem lib_off_leaves_empty_array:
  "lib_listeners (lib_off_inst ''ping'' 2 (lib_on_inst ''ping'' 2 lib_fresh)) ''ping'' = Some (Arr [])
   \<and> lib_listeners (lib_off_inst ''ping'' 2 (lib_on_inst ''ping'' 2 lib_fresh)) ''ping'' \<noteq> None"
  by (simp add: lib_eval lib_fresh_eq)

text \<open>
  C9, amended. In the class of app.tsx, an \<open>off\<close> that removes the only listener registered
  for an event removes the event from the map, and the registry is well formed (no event
  with an empty set) in a new instance and after every \<open>on\<close> and \<open>off\<close> on a well-formed
  registry. In the class of nodeflow.ts, \<open>lib_off\<close> on an event that has an array returns
  normally, keeps the event and stores the array without the listener, which is empty when
  no other listener was registered.
\<close>

theorem off_releases_event_key:
  "(registered i type = [handler] \<longrightarrow> listeners (off type handler i) type = None)
   \<and> registry_ok new_NodeFlow
   \<and> (registry_ok i \<longrightarrow> registry_ok (off type handler i) \<and> registry_ok (snd (on type handler i)))
   \<and> (lib_listeners i' event = Some (Arr ls) \<longrightarrow>
        lib_off event listener i' =
          Return () (i'\<lparr>lib_listeners := (lib_listeners i')(event \<mapsto> Arr (filter (\<lambda>l. l \<noteq> listener) ls))\<rparr>)
        \<and> lib_listeners (lib_off_inst event listener i') event =
            Some (Arr (filter (\<lambda>l. l \<noteq> listener) ls)))"
  using off_removes_key [of i type handler] registry_ok_new
    registry_ok_off [of i type handler] registry_ok_on [of i type handler]
  by (simp add: lib_off_inst_def lib_off_def lib_get_def)

theorem off_releases_event_key_witness:
  "registered (snd (on ''ping'' 2 new_NodeFlow)) ''ping'' = [2]
   \<and> listeners (off ''ping'' 2 (snd (on ''ping'' 2 new_NodeFlow))) ''ping'' = None
   \<and> registry_ok (snd (on ''ping'' 2 new_NodeFlow))
   \<and> registry_ok (off ''ping'' 2 (snd (on ''ping'' 2 new_NodeFlow)))
   \<and> registry_ok (snd (on ''ping'' 2 (snd (on ''ping'' 2 new_NodeFlow))))
   \<and> lib_listeners (lib_on_inst ''ping'' 2 lib_fresh) ''ping'' = Some (Arr [2])
   \<and> lib_off ''ping'' 2 (lib_on_inst ''ping'' 2 lib_fresh) =
       Return () (lib_fresh\<lparr>lib_listeners := [''ping'' \<mapsto> Arr []]\<rparr>)
   \<and> lib_listeners (lib_off_inst ''ping'' 2 (lib_on_inst ''ping'' 2 lib_fresh)) ''ping'' = Some (Arr [])"
proof -
  have a: "registered (snd (on ''ping'' 2 new_NodeFlow)) ''ping'' = [2]"
    by (simp add: registered_def on_def new_NodeFlow_def set_add_def List.map_filter_simps)
  have b: "registry_ok (snd (on ''ping'' 2 new_NodeFlow))"
    using off_releases_event_key [of new_NodeFlow "''ping''" 2] by blast
  have c: "lib_listeners (lib_on_inst ''ping'' 2 lib_fresh) ''ping'' = Some (Arr [2])"
    by (simp add: lib_eval lib_fresh_eq)
  have d: "(lib_listeners (lib_on_inst ''ping'' 2 lib_fresh))(''ping'' \<mapsto> Arr []) = [''ping'' \<mapsto> Arr []]"
    by (simp add: lib_eval lib_fresh_eq)
  have e: "(lib_on_inst ''ping'' 2 lib_fresh)\<lparr>lib_listeners := [''ping'' \<mapsto> Arr []]\<rparr> =
      lib_fresh\<lparr>lib_listeners := [''ping'' \<mapsto> Arr []]\<rparr>"
    by (simp add: lib_eval lib_fresh_eq)
  show ?thesis
    using a b c
      off_releases_event_key [of "snd (on ''ping'' 2 new_NodeFlow)" "''ping''" 2
        "lib_on_inst ''ping'' 2 lib_fresh" "''ping''" "[2]" 2]
    by (simp add: d e)
qed

section \<open>Transactions: change\<close>

lemma coalescedD:
  "coalesced f \<Longrightarrow> changing i \<Longrightarrow> f i = Some (Return u j) \<Longrightarrow>
   changing j \<and> quiet_ext (trace i) (trace j)"
  unfolding coalesced_def by blast

lemma quiet_ext_refl: "quiet_ext t t"
  by (simp add: quiet_ext_def)

lemma quiet_ext_trans: "quiet_ext a b \<Longrightarrow> quiet_ext b c \<Longrightarrow> quiet_ext a c"
  by (auto simp: quiet_ext_def)

lemma quiet_ext_Invoked: "quiet_ext (t @ [Invoked l e d]) t' \<Longrightarrow> quiet_ext t t'"
  by (auto simp: quiet_ext_def)

lemma forEach_invariant:
  assumes run: "forEach H type data s idx i = Some r"
  shows "I i \<longrightarrow>
     (\<forall>l j u j'. I j \<longrightarrow> Some l \<in> set (setData j s) \<longrightarrow>
        H l data (j\<lparr>trace := trace j @ [Invoked l type data]\<rparr>) = Some (Return u j') \<longrightarrow> I j') \<longrightarrow>
     (case r of
        Return u j \<Rightarrow> I j
      | Raise x j \<Rightarrow> (\<exists>l j0. I j0 \<and> Some l \<in> set (setData j0 s) \<and>
          H l data (j0\<lparr>trace := trace j0 @ [Invoked l type data]\<rparr>) = Some (Raise x j)))"
proof (rule forEach.raw_induct
    [where P = "\<lambda>H type data s idx i r. I i \<longrightarrow>
     (\<forall>l j u j'. I j \<longrightarrow> Some l \<in> set (setData j s) \<longrightarrow>
        H l data (j\<lparr>trace := trace j @ [Invoked l type data]\<rparr>) = Some (Return u j') \<longrightarrow> I j') \<longrightarrow>
     (case r of
        Return u j \<Rightarrow> I j
      | Raise x j \<Rightarrow> (\<exists>l j0. I j0 \<and> Some l \<in> set (setData j0 s) \<and>
          H l data (j0\<lparr>trace := trace j0 @ [Invoked l type data]\<rparr>) = Some (Raise x j)))", OF _ run])
  fix loop :: "handlers \<Rightarrow> string \<Rightarrow> payload \<Rightarrow> nat \<Rightarrow> nat \<Rightarrow> nodeflow \<Rightarrow> (unit, nodeflow) result option"
  fix H type data s idx i r
  let ?step = "\<lambda>H type data s. \<forall>l j u j'. I j \<longrightarrow> Some l \<in> set (setData j s) \<longrightarrow>
        H l data (j\<lparr>trace := trace j @ [Invoked l type data]\<rparr>) = Some (Return u j') \<longrightarrow> I j'"
  let ?post = "\<lambda>H type data s r. case r of
        Return u j \<Rightarrow> I j
      | Raise x j \<Rightarrow> (\<exists>l j0. I j0 \<and> Some l \<in> set (setData j0 s) \<and>
          H l data (j0\<lparr>trace := trace j0 @ [Invoked l type data]\<rparr>) = Some (Raise x j))"
  assume IH: "\<And>H type data s idx i r. loop H type data s idx i = Some r \<Longrightarrow>
      I i \<longrightarrow> ?step H type data s \<longrightarrow> ?post H type data s r"
  assume body: "(if idx < length (setData i s) then
        (case setData i s ! idx of
           None \<Rightarrow> loop H type data s (idx + 1) i
         | Some listener \<Rightarrow>
             (case H listener data (i\<lparr>trace := trace i @ [Invoked listener type data]\<rparr>) of
                None \<Rightarrow> None
              | Some (Return u i') \<Rightarrow> loop H type data s (idx + 1) i'
              | Some (Raise x i') \<Rightarrow> Some (Raise x i')))
      else Some (Return () i)) = Some r"
  show "I i \<longrightarrow> ?step H type data s \<longrightarrow> ?post H type data s r"
  proof (intro impI)
    assume inv: "I i" and step: "?step H type data s"
    show "?post H type data s r"
    proof (cases "idx < length (setData i s)")
      case False
      then have "r = Return () i" using body by simp
      then show ?thesis using inv by simp
    next
      case True
      show ?thesis
      proof (cases "setData i s ! idx")
        case None
        then have rest: "loop H type data s (idx + 1) i = Some r" using body True by simp
        from mp [OF mp [OF IH [OF rest] inv] step] show ?thesis .
      next
        case (Some l)
        have mem: "Some l \<in> set (setData i s)" using True Some nth_mem by metis
        let ?i1 = "i\<lparr>trace := trace i @ [Invoked l type data]\<rparr>"
        have "H l data ?i1 \<noteq> None"
        proof
          assume "H l data ?i1 = None"
          then show False using body True Some by simp
        qed
        then obtain r1 where call: "H l data ?i1 = Some r1" by blast
        show ?thesis
        proof (cases r1)
          case (Return u' i')
          then have rest: "loop H type data s (idx + 1) i' = Some r"
            using body True Some call by simp
          have "I i'" using step inv mem call Return by blast
          from mp [OF mp [OF IH [OF rest] this] step] show ?thesis .
        next
          case (Raise x i')
          then have "r = Raise x i'" using body True Some call by simp
          moreover have "\<exists>l j0. I j0 \<and> Some l \<in> set (setData j0 s) \<and>
            H l data (j0\<lparr>trace := trace j0 @ [Invoked l type data]\<rparr>) = Some (Raise x i')"
            using inv mem call Raise by blast
          ultimately show ?thesis by simp
        qed
      qed
    qed
  qed
qed

lemma forEach_coalesced:
  assumes run: "forEach H type data s idx i = Some (Return u j)"
    and H: "\<And>l d. coalesced (H l d)" and ch: "changing i"
  shows "changing j \<and> quiet_ext (trace i) (trace j)"
proof -
  let ?I = "\<lambda>k. changing k \<and> quiet_ext (trace i) (trace k)"
  have "?I i" using ch by (simp add: quiet_ext_refl)
  moreover have "\<forall>l k u k'. ?I k \<longrightarrow> Some l \<in> set (setData k s) \<longrightarrow>
        H l data (k\<lparr>trace := trace k @ [Invoked l type data]\<rparr>) = Some (Return u k') \<longrightarrow> ?I k'"
  proof (intro allI impI)
    fix l k u k'
    assume k: "?I k" and call: "H l data (k\<lparr>trace := trace k @ [Invoked l type data]\<rparr>) = Some (Return u k')"
    have "changing (k\<lparr>trace := trace k @ [Invoked l type data]\<rparr>)" using k by simp
    with H have "changing k' \<and> quiet_ext (trace (k\<lparr>trace := trace k @ [Invoked l type data]\<rparr>)) (trace k')"
      using call by (rule coalescedD)
    then show "?I k'" using k by (auto intro: quiet_ext_trans quiet_ext_Invoked)
  qed
  ultimately have "case Return u j of Return u j \<Rightarrow> ?I j | Raise x j \<Rightarrow> (\<exists>l j0. ?I j0 \<and> Some l \<in> set (setData j0 s) \<and>
          H l data (j0\<lparr>trace := trace j0 @ [Invoked l type data]\<rparr>) = Some (Raise x j))"
    by (rule mp [OF mp [OF forEach_invariant [OF run, of ?I]]])
  then show ?thesis by simp
qed

lemma emit_coalesced:
  assumes run: "emit H type data i = Some (Return u j)"
    and H: "\<And>l d. coalesced (H l d)" and ch: "changing i"
  shows "changing j \<and> quiet_ext (trace i @ [Fired type data]) (trace j)"
proof (cases "listeners i type")
  case None
  then show ?thesis using run ch by (auto simp: emit_def quiet_ext_refl)
next
  case (Some s)
  then have "forEach H type data s 0 (i\<lparr>trace := trace i @ [Fired type data]\<rparr>) = Some (Return u j)"
    using run by (simp add: emit_def)
  from forEach_coalesced [OF this H] ch show ?thesis by simp
qed



lemma bind_result_Return:
  "bind_result m k = Some (Return u j) \<Longrightarrow>
   \<exists>a s. m = Some (Return a s) \<and> k a s = Some (Return u j)"
  unfolding bind_result_def
  by (cases m) (auto split: result.splits)


lemma change_outermost:
  assumes nch: "\<not> changing i" and run: "change H fn i = Some (Return u j)"
  shows "\<exists>i2 i3 i4.
     emit H ''beforeChange'' (PState (state i)) (i\<lparr>changing := True\<rparr>) = Some (Return () i2) \<and>
     fn i2 = Some (Return () i3) \<and>
     emit H ''change'' (PState (state i3)) i3 = Some (Return () i4) \<and>
     j = i4\<lparr>changing := False\<rparr>"
proof -
  let ?i1 = "i\<lparr>changing := True\<rparr>"
  from run nch have r1: "bind_result (emit H ''beforeChange'' (PState (state i)) ?i1) (\<lambda>_ i2.
         bind_result (fn i2) (\<lambda>_ i3.
         bind_result (emit H ''change'' (PState (state i3)) i3) (\<lambda>_ i4.
         Some (Return () (i4\<lparr>changing := False\<rparr>))))) = Some (Return u j)"
    by (simp add: change_def Let_def)
  then obtain i2 where e1: "emit H ''beforeChange'' (PState (state i)) ?i1 = Some (Return () i2)"
    and r2: "bind_result (fn i2) (\<lambda>_ i3.
         bind_result (emit H ''change'' (PState (state i3)) i3) (\<lambda>_ i4.
         Some (Return () (i4\<lparr>changing := False\<rparr>)))) = Some (Return u j)"
    by (auto simp: bind_result_def split: option.splits result.splits)
  from r2 obtain i3 where e2: "fn i2 = Some (Return () i3)"
    and r3: "bind_result (emit H ''change'' (PState (state i3)) i3) (\<lambda>_ i4.
         Some (Return () (i4\<lparr>changing := False\<rparr>))) = Some (Return u j)"
    by (auto simp: bind_result_def split: option.splits result.splits)
  from r3 obtain i4 where e3: "emit H ''change'' (PState (state i3)) i3 = Some (Return () i4)"
    and j: "j = i4\<lparr>changing := False\<rparr>"
    by (auto simp: bind_result_def split: option.splits result.splits)
  from e1 e2 e3 j show ?thesis by blast
qed

lemma change_trace:
  assumes H: "\<And>l d. coalesced (H l d)" and fn: "coalesced fn"
    and e1: "emit H ''beforeChange'' (PState (state i)) (i\<lparr>changing := True\<rparr>) = Some (Return () i2)"
    and e2: "fn i2 = Some (Return () i3)"
    and e3: "emit H ''change'' (PState (state i3)) i3 = Some (Return () i4)"
  shows "\<exists>ext. trace i4 = trace i @ ext \<and>
     filter is_txn_event ext =
       [Fired ''beforeChange'' (PState (state i)), Fired ''change'' (PState (state i3))]"
proof -
  have a: "changing i2 \<and> quiet_ext (trace i @ [Fired ''beforeChange'' (PState (state i))]) (trace i2)"
    using emit_coalesced [OF e1 H] by simp
  have b: "changing i3 \<and> quiet_ext (trace i2) (trace i3)"
    using coalescedD [OF fn _ e2] a by simp
  have c: "quiet_ext (trace i3 @ [Fired ''change'' (PState (state i3))]) (trace i4)"
    using emit_coalesced [OF e3 H] b by simp
  from a obtain x1 where x1: "trace i2 = trace i @ [Fired ''beforeChange'' (PState (state i))] @ x1"
     "filter is_txn_event x1 = []" by (auto simp: quiet_ext_def)
  from b obtain x2 where x2: "trace i3 = trace i2 @ x2" "filter is_txn_event x2 = []"
    by (auto simp: quiet_ext_def)
  from c obtain x3 where x3: "trace i4 = trace i3 @ [Fired ''change'' (PState (state i3))] @ x3"
     "filter is_txn_event x3 = []" by (auto simp: quiet_ext_def)
  have "trace i4 = trace i @ ([Fired ''beforeChange'' (PState (state i))] @ x1 @ x2 @
      [Fired ''change'' (PState (state i3))] @ x3)"
    using x1 x2 x3 by simp
  moreover have "filter is_txn_event ([Fired ''beforeChange'' (PState (state i))] @ x1 @ x2 @
      [Fired ''change'' (PState (state i3))] @ x3) =
      [Fired ''beforeChange'' (PState (state i)), Fired ''change'' (PState (state i3))]"
    using x1 x2 x3 by simp
  ultimately show ?thesis by blast
qed

lemma forEach_end: "\<not> idx < length (setData i s) \<Longrightarrow> forEach H type data s idx i = Some (Return () i)"
  by (subst forEach.simps) simp

lemma forEach_call:
  "idx < length (setData i s) \<Longrightarrow> setData i s ! idx = Some l \<Longrightarrow>
   forEach H type data s idx i =
     bind_result (H l data (i\<lparr>trace := trace i @ [Invoked l type data]\<rparr>))
       (\<lambda>_ i'. forEach H type data s (idx + 1) i')"
  by (subst forEach.simps) (simp add: bind_result_def split: option.splits result.splits)

lemma forEach_skip:
  "idx < length (setData i s) \<Longrightarrow> setData i s ! idx = None \<Longrightarrow>
   forEach H type data s idx i = forEach H type data s (idx + 1) i"
  by (subst forEach.simps) simp

lemma forEach_keeps_state:
  assumes run: "forEach H type data s idx i = Some (Return u j)"
    and H: "\<And>l d. keeps_state (H l d)"
  shows "state j = state i"
proof -
  let ?I = "\<lambda>k. state k = state i"
  have "?I i" by simp
  moreover have "\<forall>l k u k'. ?I k \<longrightarrow> Some l \<in> set (setData k s) \<longrightarrow>
        H l data (k\<lparr>trace := trace k @ [Invoked l type data]\<rparr>) = Some (Return u k') \<longrightarrow> ?I k'"
  proof (intro allI impI)
    fix l k u k'
    assume k: "?I k" and call: "H l data (k\<lparr>trace := trace k @ [Invoked l type data]\<rparr>) = Some (Return u k')"
    have "keeps_state (H l data)" by (rule H)
    then have "state k' = state (k\<lparr>trace := trace k @ [Invoked l type data]\<rparr>)"
      using call unfolding keeps_state_def by blast
    then show "?I k'" using k by simp
  qed
  ultimately have "case Return u j of Return u j \<Rightarrow> ?I j | Raise x j \<Rightarrow> (\<exists>l j0. ?I j0 \<and> Some l \<in> set (setData j0 s) \<and>
          H l data (j0\<lparr>trace := trace j0 @ [Invoked l type data]\<rparr>) = Some (Raise x j))"
    by (rule mp [OF mp [OF forEach_invariant [OF run, of ?I]]])
  then show ?thesis by simp
qed

lemma emit_keeps_state:
  assumes run: "emit H type data i = Some (Return u j)"
    and H: "\<And>l d. keeps_state (H l d)"
  shows "state j = state i"
proof (cases "listeners i type")
  case None
  then show ?thesis using run by (auto simp: emit_def)
next
  case (Some s)
  then have "forEach H type data s 0 (i\<lparr>trace := trace i @ [Fired type data]\<rparr>) = Some (Return u j)"
    using run by (simp add: emit_def)
  from forEach_keeps_state [OF this H] show ?thesis by simp
qed

lemma counter0_eq:
  "counter0 = \<lparr>state = [''count'' \<mapsto> VNum 0], api = Map.empty, initialized = False, changing = False,
      listeners = [''beforeChange'' \<mapsto> 0, ''change'' \<mapsto> 1],
      setData = (\<lambda>_. [])(0 := [Some 2], 1 := [Some 3]), nsets = 2, trace = []\<rparr>"
  by (simp add: counter0_def on_def new_NodeFlow_def set_add_def)

lemmas eval_simps = change_def emit_def bind_result_def then_call_def set_key_def
  forEach_end forEach_call forEach_skip

lemma counter_run:
  "change silent_handlers increment_count counter0 =
     Some (Return () (counter0\<lparr>state := [''count'' \<mapsto> VNum 1],
       trace := [Fired ''beforeChange'' (PState [''count'' \<mapsto> VNum 0]),
                 Invoked 2 ''beforeChange'' (PState [''count'' \<mapsto> VNum 0]),
                 Fired ''change'' (PState [''count'' \<mapsto> VNum 1]),
                 Invoked 3 ''change'' (PState [''count'' \<mapsto> VNum 1])]\<rparr>))"
  by (simp add: counter0_eq eval_simps silent_handlers_def increment_count_def)

lemma coalesced_silent: "coalesced (silent_handlers l d)"
  by (auto simp: coalesced_def silent_handlers_def quiet_ext_def)

lemma keeps_state_silent: "keeps_state (silent_handlers l d)"
  by (auto simp: keeps_state_def silent_handlers_def)

lemma coalesced_increment: "coalesced increment_count"
  by (auto simp: coalesced_def increment_count_def quiet_ext_def split: option.splits val.splits)







text \<open>
  C2. The code does not do what the claim says: \<open>change\<close> sets \<^verbatim>\<open>changing\<close> before the
  callback and resets it after the second \<open>emit\<close> only, so when the callback throws, the
  exception reaches the caller with the flag still set; the next call of \<open>change\<close>, made
  with no change in progress, runs its callback and fires nothing.
\<close>

theorem change_throw_leaves_flag_set:
  "\<not> changing counter0
   \<and> (\<exists>k. change silent_handlers throwing counter0 = Some (Raise (Exn ''boom'') k)
        \<and> changing k
        \<and> (\<exists>k'. change silent_handlers increment_count k = Some (Return () k')
              \<and> trace k' = trace k \<and> changing k'))"
  by (simp add: counter0_eq eval_simps silent_handlers_def increment_count_def throwing_def)

text \<open>
  C3. For a call of \<open>change\<close> made while no change is in progress that returns normally
  (callback and listeners coalesced): \<^verbatim>\<open>beforeChange\<close> is fired with the state the
  instance has at the call, then the callback runs, then \<^verbatim>\<open>change\<close> is fired with
  the state the callback left. When the listeners do not write the state, the payload of
  \<^verbatim>\<open>beforeChange\<close> is the state on which the callback starts, and the payload of
  \<^verbatim>\<open>change\<close> is the state of the instance when \<open>change\<close> returns.
\<close>

theorem change_payloads:
  assumes "\<not> changing i" and "\<forall>l d. coalesced (H l d)" and "coalesced fn"
    and "change H fn i = Some (Return u j)"
  shows "\<exists>i2 i3 i4 ext.
     emit H ''beforeChange'' (PState (state i)) (i\<lparr>changing := True\<rparr>) = Some (Return () i2) \<and>
     fn i2 = Some (Return () i3) \<and>
     emit H ''change'' (PState (state i3)) i3 = Some (Return () i4) \<and>
     j = i4\<lparr>changing := False\<rparr> \<and>
     trace j = trace i @ ext \<and>
     filter is_txn_event ext =
       [Fired ''beforeChange'' (PState (state i)), Fired ''change'' (PState (state i3))] \<and>
     ((\<forall>l d. keeps_state (H l d)) \<longrightarrow> state i2 = state i \<and> state j = state i3)"
proof -
  from change_outermost [OF assms(1) assms(4)] obtain i2 i3 i4 where
    e: "emit H ''beforeChange'' (PState (state i)) (i\<lparr>changing := True\<rparr>) = Some (Return () i2)"
       "fn i2 = Some (Return () i3)"
       "emit H ''change'' (PState (state i3)) i3 = Some (Return () i4)"
       "j = i4\<lparr>changing := False\<rparr>"
    by blast
  have H: "\<And>l d. coalesced (H l d)" using assms(2) by simp
  from change_trace [OF H assms(3) e(1) e(2) e(3)] obtain ext where
    t: "trace i4 = trace i @ ext"
       "filter is_txn_event ext =
         [Fired ''beforeChange'' (PState (state i)), Fired ''change'' (PState (state i3))]"
    by blast
  have tj: "trace j = trace i @ ext" using t(1) e(4) by simp
  have k: "(\<forall>l d. keeps_state (H l d)) \<longrightarrow> state i2 = state i \<and> state j = state i3"
  proof
    assume "\<forall>l d. keeps_state (H l d)"
    then have K: "\<And>l d. keeps_state (H l d)" by simp
    have "state i2 = state i" using emit_keeps_state [OF e(1) K] by simp
    moreover have "state i4 = state i3" using emit_keeps_state [OF e(3) K] by simp
    ultimately show "state i2 = state i \<and> state j = state i3" using e(4) by simp
  qed
  from e tj t(2) k show ?thesis by blast
qed

theorem change_payloads_witness:
  "\<not> changing counter0
   \<and> (\<forall>l d. coalesced (silent_handlers l d))
   \<and> coalesced increment_count
   \<and> (\<forall>l d. keeps_state (silent_handlers l d))
   \<and> change silent_handlers increment_count counter0 =
       Some (Return () (counter0\<lparr>state := [''count'' \<mapsto> VNum 1],
         trace := [Fired ''beforeChange'' (PState [''count'' \<mapsto> VNum 0]),
                   Invoked 2 ''beforeChange'' (PState [''count'' \<mapsto> VNum 0]),
                   Fired ''change'' (PState [''count'' \<mapsto> VNum 1]),
                   Invoked 3 ''change'' (PState [''count'' \<mapsto> VNum 1])]\<rparr>))
   \<and> (\<exists>j i2 i3 i4 ext.
         change silent_handlers increment_count counter0 = Some (Return () j) \<and>
         emit silent_handlers ''beforeChange'' (PState (state counter0)) (counter0\<lparr>changing := True\<rparr>) =
           Some (Return () i2) \<and>
         increment_count i2 = Some (Return () i3) \<and>
         emit silent_handlers ''change'' (PState (state i3)) i3 = Some (Return () i4) \<and>
         j = i4\<lparr>changing := False\<rparr> \<and>
         trace j = trace counter0 @ ext \<and>
         filter is_txn_event ext =
           [Fired ''beforeChange'' (PState (state counter0)), Fired ''change'' (PState (state i3))] \<and>
         state i2 = state counter0 \<and> state j = state i3)"
proof -
  have a: "\<not> changing counter0" by (simp add: counter0_eq)
  have b: "\<forall>l d. coalesced (silent_handlers l d)" by (simp add: coalesced_silent)
  have k: "\<forall>l d. keeps_state (silent_handlers l d)" by (simp add: keeps_state_silent)
  from change_payloads [OF a b coalesced_increment counter_run] k counter_run
  have "\<exists>j i2 i3 i4 ext.
         change silent_handlers increment_count counter0 = Some (Return () j) \<and>
         emit silent_handlers ''beforeChange'' (PState (state counter0)) (counter0\<lparr>changing := True\<rparr>) =
           Some (Return () i2) \<and>
         increment_count i2 = Some (Return () i3) \<and>
         emit silent_handlers ''change'' (PState (state i3)) i3 = Some (Return () i4) \<and>
         j = i4\<lparr>changing := False\<rparr> \<and>
         trace j = trace counter0 @ ext \<and>
         filter is_txn_event ext =
           [Fired ''beforeChange'' (PState (state counter0)), Fired ''change'' (PState (state i3))] \<and>
         state i2 = state counter0 \<and> state j = state i3"
    by blast
  with a b k coalesced_increment counter_run show ?thesis by blast
qed

section \<open>Listeners that throw, listeners that were removed\<close>

lemma both_eq:
  "both = \<lparr>state = Map.empty, api = Map.empty, initialized = False, changing = False,
      listeners = [''ping'' \<mapsto> 0],
      setData = (\<lambda>_. [])(0 := [Some 1, Some 2]), nsets = 1, trace = []\<rparr>"
  by (simp add: both_def on_def new_NodeFlow_def set_add_def)

lemma lib_both_eq:
  "lib_both = lib_fresh\<lparr>lib_listeners := [''ping'' \<mapsto> Arr [1, 2]]\<rparr>"
  by (simp add: lib_both_def lib_eval lib_fresh_eq)

text \<open>
  C7, as the claim states it, fails on both classes: with the listeners 1 and 2 registered
  for an event, in this order, and the listener 1 throwing, \<open>emit\<close> ends with the exception
  of the listener 1 and the listener 2 has not been called.
\<close>

theorem emit_stops_at_throwing_listener:
  "registered both ''ping'' = [1, 2]
   \<and> emit example_handlers ''ping'' (PVal (VNum 7)) both =
       Some (Raise (Exn ''boom'')
         (both\<lparr>trace := [Fired ''ping'' (PVal (VNum 7)), Invoked 1 ''ping'' (PVal (VNum 7))]\<rparr>))
   \<and> lib_registered lib_both ''ping'' = [1, 2]
   \<and> lib_emit lib_example_handlers ''ping'' (PVal (VNum 7)) lib_both =
       Some (Raise (Exn ''boom'')
         (lib_both\<lparr>lib_trace := [Fired ''ping'' (PVal (VNum 7)), Invoked 1 ''ping'' (PVal (VNum 7))]\<rparr>))"
  by (simp add: both_eq lib_both_eq lib_fresh_eq registered_def lib_registered_def lib_get_def
      List.map_filter_simps eval_simps lib_emit_def example_handlers_def lib_example_handlers_def)

lemma lib_forEach_append:
  "lib_forEach H event p (xs @ ys) i =
     bind_result (lib_forEach H event p xs i) (\<lambda>_ j. lib_forEach H event p ys j)"
proof (induction xs arbitrary: i)
  case Nil
  show ?case by (simp add: bind_result_def)
next
  case (Cons l xs)
  show ?case
  proof (cases "H l p (i\<lparr>lib_trace := lib_trace i @ [Invoked l event p]\<rparr>)")
    case None
    then show ?thesis by (simp add: bind_result_def)
  next
    case (Some r)
    then show ?thesis using Cons.IH by (cases r) (simp_all add: bind_result_def)
  qed
qed

lemma loop_reaches_forEach:
  "loop_reaches H type data s idx i idx' i' \<Longrightarrow>
   forEach H type data s idx i = forEach H type data s idx' i'"
proof (induction rule: loop_reaches.induct)
  case (here idx i)
  show ?case by simp
next
  case (skip idx i idx' i')
  then show ?case by (simp add: forEach_skip)
next
  case (call idx i l u k idx' i')
  then show ?case by (simp add: forEach_call bind_result_def)
qed

lemma three_eq:
  "three = \<lparr>state = Map.empty, api = Map.empty, initialized = False, changing = False,
      listeners = [''ping'' \<mapsto> 0],
      setData = (\<lambda>_. [])(0 := [Some 2, Some 1, Some 3]), nsets = 1, trace = []\<rparr>"
  by (simp add: three_def on_def new_NodeFlow_def set_add_def)

lemma lib_three_eq:
  "lib_three = lib_fresh\<lparr>lib_listeners := [''ping'' \<mapsto> Arr [2, 1, 3]]\<rparr>"
  by (simp add: lib_three_def lib_eval lib_fresh_eq)

text \<open>
  C7, amended. An exception thrown by a listener ends the \<open>emit\<close> call. In the class of
  app.tsx: when the loop of \<open>emit\<close> over the set of the event, the listeners called before
  having returned normally, reaches a listener that throws, \<open>emit\<close> returns that exception
  to its caller, with the instance as the throwing listener left it: the listeners after
  it are not called in that \<open>emit\<close>. In the class of nodeflow.ts: when the listeners before
  \<open>l'\<close> in the array of the event return normally and \<open>l'\<close> throws, \<open>lib_emit\<close> returns that
  exception in the same way, whatever listeners follow.
\<close>

theorem listener_exception_aborts_emit:
  "(listeners i type = Some s \<and>
      loop_reaches H type data s 0 (i\<lparr>trace := trace i @ [Fired type data]\<rparr>) idx k \<and>
      idx < length (setData k s) \<and> setData k s ! idx = Some l \<and>
      H l data (k\<lparr>trace := trace k @ [Invoked l type data]\<rparr>) = Some (Raise x j)
      \<longrightarrow> emit H type data i = Some (Raise x j))
   \<and> (lib_listeners i' event = Some (Arr (before @ l' # rest)) \<and>
      lib_forEach H' event p before (i'\<lparr>lib_trace := lib_trace i' @ [Fired event p]\<rparr>) = Some (Return () k') \<and>
      H' l' p (k'\<lparr>lib_trace := lib_trace k' @ [Invoked l' event p]\<rparr>) = Some (Raise x' j')
      \<longrightarrow> lib_emit H' event p i' = Some (Raise x' j'))"
proof (intro conjI impI)
  assume a: "listeners i type = Some s \<and>
      loop_reaches H type data s 0 (i\<lparr>trace := trace i @ [Fired type data]\<rparr>) idx k \<and>
      idx < length (setData k s) \<and> setData k s ! idx = Some l \<and>
      H l data (k\<lparr>trace := trace k @ [Invoked l type data]\<rparr>) = Some (Raise x j)"
  then have "forEach H type data s 0 (i\<lparr>trace := trace i @ [Fired type data]\<rparr>) =
      forEach H type data s idx k"
    using loop_reaches_forEach by blast
  also have "\<dots> = Some (Raise x j)"
    using a by (simp add: forEach_call bind_result_def)
  finally show "emit H type data i = Some (Raise x j)"
    using a by (simp add: emit_def)
next
  assume a: "lib_listeners i' event = Some (Arr (before @ l' # rest)) \<and>
      lib_forEach H' event p before (i'\<lparr>lib_trace := lib_trace i' @ [Fired event p]\<rparr>) = Some (Return () k') \<and>
      H' l' p (k'\<lparr>lib_trace := lib_trace k' @ [Invoked l' event p]\<rparr>) = Some (Raise x' j')"
  then show "lib_emit H' event p i' = Some (Raise x' j')"
    by (simp add: lib_emit_def lib_get_def lib_forEach_append bind_result_def)
qed

theorem listener_exception_aborts_emit_witness:
  "registered three ''ping'' = [2, 1, 3]
   \<and> listeners three ''ping'' = Some 0
   \<and> loop_reaches example_handlers ''ping'' (PVal (VNum 7)) 0 0
        (three\<lparr>trace := trace three @ [Fired ''ping'' (PVal (VNum 7))]\<rparr>) 1
        (three\<lparr>state := [''last'' \<mapsto> VNum 2],
               trace := [Fired ''ping'' (PVal (VNum 7)), Invoked 2 ''ping'' (PVal (VNum 7))]\<rparr>)
   \<and> emit example_handlers ''ping'' (PVal (VNum 7)) three =
       Some (Raise (Exn ''boom'')
         (three\<lparr>state := [''last'' \<mapsto> VNum 2],
                trace := [Fired ''ping'' (PVal (VNum 7)), Invoked 2 ''ping'' (PVal (VNum 7)),
                          Invoked 1 ''ping'' (PVal (VNum 7))]\<rparr>))
   \<and> lib_listeners lib_three ''ping'' = Some (Arr ([2] @ 1 # [3]))
   \<and> lib_emit lib_example_handlers ''ping'' (PVal (VNum 7)) lib_three =
       Some (Raise (Exn ''boom'')
         (lib_three\<lparr>lib_state := coreState(''last'' \<mapsto> VNum 2),
                    lib_trace := [Fired ''ping'' (PVal (VNum 7)), Invoked 2 ''ping'' (PVal (VNum 7)),
                                  Invoked 1 ''ping'' (PVal (VNum 7))]\<rparr>))"
proof -
  let ?d = "PVal (VNum 7)"
  let ?i1 = "three\<lparr>trace := trace three @ [Fired ''ping'' ?d]\<rparr>"
  let ?k = "three\<lparr>state := [''last'' \<mapsto> VNum 2], trace := [Fired ''ping'' ?d, Invoked 2 ''ping'' ?d]\<rparr>"
  let ?j = "three\<lparr>state := [''last'' \<mapsto> VNum 2],
      trace := [Fired ''ping'' ?d, Invoked 2 ''ping'' ?d, Invoked 1 ''ping'' ?d]\<rparr>"
  let ?k' = "lib_three\<lparr>lib_state := coreState(''last'' \<mapsto> VNum 2),
      lib_trace := [Fired ''ping'' ?d, Invoked 2 ''ping'' ?d]\<rparr>"
  let ?j' = "lib_three\<lparr>lib_state := coreState(''last'' \<mapsto> VNum 2),
      lib_trace := [Fired ''ping'' ?d, Invoked 2 ''ping'' ?d, Invoked 1 ''ping'' ?d]\<rparr>"
  have r: "registered three ''ping'' = [2, 1, 3]"
    by (simp add: three_eq registered_def List.map_filter_simps)
  have a: "listeners three ''ping'' = Some 0" by (simp add: three_eq)
  have c0: "0 < length (setData ?i1 0)" "setData ?i1 0 ! 0 = Some 2"
    by (simp_all add: three_eq)
  have c1: "example_handlers 2 ?d (?i1\<lparr>trace := trace ?i1 @ [Invoked 2 ''ping'' ?d]\<rparr>) = Some (Return () ?k)"
    by (simp add: example_handlers_def three_eq)
  have b: "loop_reaches example_handlers ''ping'' ?d 0 0 ?i1 1 ?k"
    by (rule loop_reaches.call, rule c0(1), rule c0(2), rule c1) (simp add: loop_reaches.here)
  have c: "1 < length (setData ?k 0)" "setData ?k 0 ! 1 = Some 1"
    by (simp_all add: three_eq)
  have d: "example_handlers 1 ?d (?k\<lparr>trace := trace ?k @ [Invoked 1 ''ping'' ?d]\<rparr>) = Some (Raise (Exn ''boom'') ?j)"
    by (simp add: example_handlers_def)
  have a': "lib_listeners lib_three ''ping'' = Some (Arr ([2] @ 1 # [3]))"
    by (simp add: lib_three_eq)
  have b': "lib_forEach lib_example_handlers ''ping'' ?d [2]
      (lib_three\<lparr>lib_trace := lib_trace lib_three @ [Fired ''ping'' ?d]\<rparr>) = Some (Return () ?k')"
    by (simp add: lib_three_eq lib_fresh_eq lib_example_handlers_def bind_result_def)
  have d': "lib_example_handlers 1 ?d (?k'\<lparr>lib_trace := lib_trace ?k' @ [Invoked 1 ''ping'' ?d]\<rparr>) =
      Some (Raise (Exn ''boom'') ?j')"
    by (simp add: lib_example_handlers_def)
  note inst = listener_exception_aborts_emit [of three "''ping''" 0 example_handlers ?d 1 ?k 1
      "Exn ''boom''" ?j lib_three "''ping''" "[2]" 1 "[3]" lib_example_handlers ?d ?k' "Exn ''boom''" ?j']
  from inst a b c d have 1: "emit example_handlers ''ping'' ?d three = Some (Raise (Exn ''boom'') ?j)"
    by blast
  from inst a' b' d' have 2: "lib_emit lib_example_handlers ''ping'' ?d lib_three = Some (Raise (Exn ''boom'') ?j')"
    by blast
  from r a b 1 a' 2 show ?thesis by (intro conjI)
qed

lemma not_called_refl: "not_called h type t t"
  by (simp add: not_called_def)

lemma not_called_trans: "not_called h type a b \<Longrightarrow> not_called h type b c \<Longrightarrow> not_called h type a c"
  by (auto simp: not_called_def)

lemma leaves_unregisteredD:
  assumes "leaves_unregistered h type f" "f j = Some r" "h \<notin> set (registered j type)"
  shows "\<And>s. Some h \<notin> set (setData j s) \<Longrightarrow> Some h \<notin> set (setData (inst_of r) s)"
    and "h \<notin> set (registered (inst_of r) type)"
    and "not_called h type (trace j) (trace (inst_of r))"
  using assms unfolding leaves_unregistered_def not_called_def by blast+

lemma registered_trace_upd [simp]: "registered (i\<lparr>trace := t\<rparr>) type = registered i type"
  by (simp add: registered_def split: option.splits)

lemma forEach_not_called:
  assumes run: "forEach H type data s idx i = Some r"
    and H: "\<And>l d. l \<noteq> h \<Longrightarrow> leaves_unregistered h type (H l d)"
    and s: "Some h \<notin> set (setData i s)" and reg: "h \<notin> set (registered i type)"
  shows "not_called h type (trace i) (trace (inst_of r))"
proof -
  let ?I = "\<lambda>k. Some h \<notin> set (setData k s) \<and> h \<notin> set (registered k type) \<and>
      not_called h type (trace i) (trace k)"
  let ?lg = "\<lambda>l k. k\<lparr>trace := trace k @ [Invoked l type data]\<rparr>"
  have after: "not_called h type (trace i) (trace (inst_of r')) \<and>
      Some h \<notin> set (setData (inst_of r') s) \<and> h \<notin> set (registered (inst_of r') type)"
    if k: "?I k" and mem: "Some l \<in> set (setData k s)" and call: "H l data (?lg l k) = Some r'"
    for l k r'
  proof -
    have ne: "l \<noteq> h" using k mem by auto
    have lu: "leaves_unregistered h type (H l data)" using H ne by simp
    have r1: "h \<notin> set (registered (?lg l k) type)" using k by simp
    have s1: "Some h \<notin> set (setData (?lg l k) s)" using k by simp
    have "not_called h type (trace (?lg l k)) (trace (inst_of r'))"
      by (rule leaves_unregisteredD(3) [OF lu call r1])
    then have "not_called h type (trace k) (trace (inst_of r'))"
      using ne by (auto simp: not_called_def)
    then have "not_called h type (trace i) (trace (inst_of r'))"
      using k not_called_trans by blast
    moreover have "Some h \<notin> set (setData (inst_of r') s)"
      by (rule leaves_unregisteredD(1) [OF lu call r1 s1])
    moreover have "h \<notin> set (registered (inst_of r') type)"
      by (rule leaves_unregisteredD(2) [OF lu call r1])
    ultimately show ?thesis by simp
  qed
  have "?I i" using s reg by (simp add: not_called_refl)
  moreover have "\<forall>l k u k'. ?I k \<longrightarrow> Some l \<in> set (setData k s) \<longrightarrow>
        H l data (k\<lparr>trace := trace k @ [Invoked l type data]\<rparr>) = Some (Return u k') \<longrightarrow> ?I k'"
  proof (intro allI impI)
    fix l k u k'
    assume "?I k" "Some l \<in> set (setData k s)"
      "H l data (k\<lparr>trace := trace k @ [Invoked l type data]\<rparr>) = Some (Return u k')"
    from after [OF this] show "?I k'" by simp
  qed
  ultimately have post: "case r of Return u j \<Rightarrow> ?I j | Raise x j \<Rightarrow> (\<exists>l j0. ?I j0 \<and> Some l \<in> set (setData j0 s) \<and>
          H l data (j0\<lparr>trace := trace j0 @ [Invoked l type data]\<rparr>) = Some (Raise x j))"
    by (rule mp [OF mp [OF forEach_invariant [OF run, of ?I]]])
  show ?thesis
  proof (cases r)
    case (Return u j)
    then show ?thesis using post by simp
  next
    case (Raise x j)
    then obtain l j0 where "?I j0" "Some l \<in> set (setData j0 s)"
      "H l data (j0\<lparr>trace := trace j0 @ [Invoked l type data]\<rparr>) = Some (Raise x j)"
      using post by auto
    from after [OF this] show ?thesis using Raise by simp
  qed
qed

lemma on_off_unregistered:
  "h \<notin> set (registered (off type h (snd (on type h i))) type)"
  by (auto simp: registered_def on_def off_def Let_def set_map_filter_id set_delete_def set_add_def
      split: option.splits if_splits)

lemma on_off_set_free:
  "listeners (off type h (snd (on type h i))) type = Some s \<Longrightarrow>
   Some h \<notin> set (setData (off type h (snd (on type h i))) s)"
  using on_off_unregistered [of h type i]
  by (simp add: registered_def set_map_filter_id)

lemma on_off_trace: "trace (off type h (snd (on type h i))) = trace i"
  by (auto simp: on_def off_def Let_def split: option.splits)

lemma emit_not_called:
  assumes run: "emit H type data i = Some r"
    and H: "\<And>l d. l \<noteq> h \<Longrightarrow> leaves_unregistered h type (H l d)"
    and reg: "h \<notin> set (registered i type)"
  shows "not_called h type (trace i) (trace (inst_of r))"
proof (cases "listeners i type")
  case None
  then show ?thesis using run by (auto simp: emit_def not_called_def)
next
  case (Some s)
  let ?i1 = "i\<lparr>trace := trace i @ [Fired type data]\<rparr>"
  have f: "forEach H type data s 0 ?i1 = Some r" using run Some by (simp add: emit_def)
  have "Some h \<notin> set (setData ?i1 s)" using reg Some by (simp add: registered_def set_map_filter_id)
  moreover have "h \<notin> set (registered ?i1 type)" using reg by simp
  ultimately have "not_called h type (trace ?i1) (trace (inst_of r))"
    using forEach_not_called [OF f H] by blast
  then show ?thesis by (auto simp: not_called_def)
qed

lemma off_unregistered_noop:
  assumes ok: "registry_ok k" and reg: "h \<notin> set (registered k type)"
  shows "off type h k = k"
proof (cases "listeners k type")
  case None
  then show ?thesis by (simp add: off_def)
next
  case (Some s)
  have nm: "Some h \<notin> set (setData k s)" using reg Some by (simp add: registered_def set_map_filter_id)
  then have del: "set_delete h (setData k s) = setData k s"
    by (auto simp: set_delete_def intro: map_idI)
  have "set_size (setData k s) \<noteq> 0" using ok Some by (auto simp: registry_ok_def)
  then show ?thesis using Some del by (simp add: off_def Let_def)
qed

lemma lib_get_trace_upd [simp]: "lib_get (i\<lparr>lib_trace := t\<rparr>) e = lib_get i e"
  by (simp add: lib_get_def)

lemma lib_registered_trace_upd [simp]: "lib_registered (i\<lparr>lib_trace := t\<rparr>) e = lib_registered i e"
  by (simp add: lib_registered_def)

lemma lib_forEach_not_called:
  assumes H: "\<And>l d. l \<noteq> h \<Longrightarrow> lib_leaves_unregistered h event (H l d)"
  shows "lib_forEach H event p ls i = Some r \<Longrightarrow> h \<notin> set ls \<Longrightarrow> h \<notin> set (lib_registered i event)
    \<Longrightarrow> not_called h event (lib_trace i) (lib_trace (inst_of r))"
proof (induction ls arbitrary: i)
  case Nil
  then show ?case by (auto simp: not_called_def)
next
  case (Cons l ls)
  let ?i1 = "i\<lparr>lib_trace := lib_trace i @ [Invoked l event p]\<rparr>"
  have ne: "l \<noteq> h" using Cons.prems(2) by auto
  from Cons.prems(1) obtain r1 where call: "H l p ?i1 = Some r1"
    by (cases "H l p ?i1") (auto simp: bind_result_def)
  have "h \<notin> set (lib_registered ?i1 event)" using Cons.prems(3) by simp
  with H [OF ne, of p] call
  have a: "h \<notin> set (lib_registered (inst_of r1) event)"
    and b: "not_called h event (lib_trace ?i1) (lib_trace (inst_of r1))"
    unfolding lib_leaves_unregistered_def not_called_def by blast+
  from b ne have b': "not_called h event (lib_trace i) (lib_trace (inst_of r1))"
    by (auto simp: not_called_def)
  show ?case
  proof (cases r1)
    case (Raise x j)
    then have "r = Raise x j" using Cons.prems(1) call by (simp add: bind_result_def)
    then show ?thesis using b' Raise by simp
  next
    case (Return u j)
    then have "lib_forEach H event p ls j = Some r" using Cons.prems(1) call by (simp add: bind_result_def)
    from Cons.IH [OF this] Cons.prems(2) a Return
    have "not_called h event (lib_trace j) (lib_trace (inst_of r))" by simp
    then show ?thesis using b' Return not_called_trans by fastforce
  qed
qed

lemma lib_emit_not_called:
  assumes run: "lib_emit H event p i = Some r"
    and H: "\<And>l d. l \<noteq> h \<Longrightarrow> lib_leaves_unregistered h event (H l d)"
    and reg: "h \<notin> set (lib_registered i event)"
  shows "not_called h event (lib_trace i) (lib_trace (inst_of r))"
proof -
  let ?i1 = "i\<lparr>lib_trace := lib_trace i @ [Fired event p]\<rparr>"
  consider "lib_get i event = None" | "lib_get i event = Some Inherited"
    | ls where "lib_get i event = Some (Arr ls)"
    by (cases "lib_get i event") (auto intro: slot.exhaust)
  then show ?thesis
  proof cases
    case 1
    then show ?thesis using run by (auto simp: lib_emit_def not_called_def)
  next
    case 2
    then show ?thesis using run by (auto simp: lib_emit_def not_called_def)
  next
    case 3
    have f: "lib_forEach H event p ls ?i1 = Some r" using run 3 by (simp add: lib_emit_def)
    have "h \<notin> set ls" using reg 3 by (simp add: lib_registered_def)
    moreover have "h \<notin> set (lib_registered ?i1 event)" using reg by simp
    ultimately have "not_called h event (lib_trace ?i1) (lib_trace (inst_of r))"
      using lib_forEach_not_called [OF H f] by blast
    then show ?thesis by (auto simp: not_called_def)
  qed
qed

lemma lib_on_returns:
  "lib_get i event \<noteq> Some Inherited \<Longrightarrow>
   lib_on event h i = Return Undefined (lib_on_inst event h i) \<and>
   lib_get (lib_on_inst event h i) event = Some (Arr (lib_registered i event @ [h])) \<and>
   lib_trace (lib_on_inst event h i) = lib_trace i"
  by (cases "lib_get i event")
     (auto simp: lib_on_inst_def lib_on_def lib_registered_def lib_get_def split: slot.splits)

lemma lib_off_returns:
  "lib_get k event \<noteq> Some Inherited \<Longrightarrow>
   lib_off event h k = Return () (lib_off_inst event h k) \<and>
   lib_registered (lib_off_inst event h k) event = filter (\<lambda>l. l \<noteq> h) (lib_registered k event) \<and>
   lib_trace (lib_off_inst event h k) = lib_trace k"
  by (cases "lib_get k event")
     (auto simp: lib_off_inst_def lib_off_def lib_registered_def lib_get_def split: slot.splits)

lemma lib_on_off_unregistered:
  assumes "lib_get i event \<noteq> Some Inherited"
  shows "lib_off event h (lib_on_inst event h i) = Return () (lib_off_inst event h (lib_on_inst event h i))"
    and "h \<notin> set (lib_registered (lib_off_inst event h (lib_on_inst event h i)) event)"
    and "lib_trace (lib_off_inst event h (lib_on_inst event h i)) = lib_trace i"
proof -
  from lib_on_returns [OF assms, of h]
  have g: "lib_get (lib_on_inst event h i) event \<noteq> Some Inherited"
    and t: "lib_trace (lib_on_inst event h i) = lib_trace i" by simp_all
  from lib_off_returns [OF g, of h] t
  show "lib_off event h (lib_on_inst event h i) = Return () (lib_off_inst event h (lib_on_inst event h i))"
    and "h \<notin> set (lib_registered (lib_off_inst event h (lib_on_inst event h i)) event)"
    and "lib_trace (lib_off_inst event h (lib_on_inst event h i)) = lib_trace i"
    by simp_all
qed

lemma lib_off_unregistered_noop:
  assumes g: "lib_get k event \<noteq> Some Inherited" and reg: "h \<notin> set (lib_registered k event)"
  shows "lib_off event h k = Return () k"
proof (cases "lib_listeners k event")
  case None
  then have "lib_get k event = None" using g by (simp add: lib_get_def split: if_splits)
  then show ?thesis by (simp add: lib_off_def)
next
  case (Some v)
  then obtain ls where v: "v = Arr ls" using g by (cases v) (simp_all add: lib_get_def)
  have "filter (\<lambda>l. l \<noteq> h) ls = ls"
    using reg Some v by (auto simp: lib_registered_def lib_get_def filter_id_conv)
  moreover have "(lib_listeners k)(event \<mapsto> Arr ls) = lib_listeners k" using Some v by auto
  ultimately show ?thesis using Some v by (simp add: lib_off_def lib_get_def)
qed

lemma pinged_eq:
  "pinged = \<lparr>state = Map.empty, api = Map.empty, initialized = False, changing = False,
      listeners = [''ping'' \<mapsto> 0],
      setData = (\<lambda>_. [])(0 := [Some 3]), nsets = 1, trace = []\<rparr>"
  by (simp add: pinged_def on_def new_NodeFlow_def set_add_def)

lemma pinged_on_off:
  "off ''ping'' 2 (snd (on ''ping'' 2 pinged)) = pinged\<lparr>setData := (\<lambda>_. [])(0 := [Some 3, None])\<rparr>"
  by (simp add: pinged_eq on_def off_def set_add_def set_delete_def set_size_def)

lemma lib_pinged_eq: "lib_pinged = lib_fresh\<lparr>lib_listeners := [''ping'' \<mapsto> Arr [3]]\<rparr>"
  by (simp add: lib_pinged_def lib_eval lib_fresh_eq)

lemma lib_pinged_on: "lib_on_inst ''ping'' 2 lib_pinged = lib_fresh\<lparr>lib_listeners := [''ping'' \<mapsto> Arr [3, 2]]\<rparr>"
  by (simp add: lib_pinged_eq lib_eval lib_fresh_eq)

lemma lib_pinged_on_off: "lib_off_inst ''ping'' 2 (lib_on_inst ''ping'' 2 lib_pinged) = lib_pinged"
  by (simp add: lib_pinged_eq lib_eval lib_fresh_eq)

lemma leaves_unregistered_example: "leaves_unregistered h type (example_handlers l d)"
  by (auto simp: leaves_unregistered_def example_handlers_def registered_def split: option.splits)

lemma lib_leaves_unregistered_example: "lib_leaves_unregistered h event (lib_example_handlers l d)"
  by (auto simp: lib_leaves_unregistered_def lib_example_handlers_def lib_registered_def lib_get_def)

lemma registry_ok_pinged: "registry_ok pinged"
  unfolding pinged_def by (rule registry_ok_on [OF registry_ok_new])

text \<open>
  C8, as the claim states it, fails on the class of nodeflow.ts: \<open>lib_on\<close> returns nothing,
  so there is no unsubscribe callback; calling what it returned throws a
  \<^verbatim>\<open>TypeError\<close>, the listener stays registered, and the next \<open>lib_emit\<close> of the event
  calls it.
\<close>

theorem lib_on_returns_no_unsubscribe:
  "lib_on ''ping'' 2 lib_fresh = Return Undefined (lib_on_inst ''ping'' 2 lib_fresh)
   \<and> invoke Undefined (lib_on_inst ''ping'' 2 lib_fresh) =
       Some (Raise (Exn ''TypeError'') (lib_on_inst ''ping'' 2 lib_fresh))
   \<and> lib_registered (lib_on_inst ''ping'' 2 lib_fresh) ''ping'' = [2]
   \<and> lib_emit lib_example_handlers ''ping'' (PVal (VNum 7)) (lib_on_inst ''ping'' 2 lib_fresh) =
       Some (Return () ((lib_on_inst ''ping'' 2 lib_fresh)
         \<lparr>lib_state := coreState(''last'' \<mapsto> VNum 2),
          lib_trace := [Fired ''ping'' (PVal (VNum 7)), Invoked 2 ''ping'' (PVal (VNum 7))]\<rparr>))"
  by (simp add: lib_eval lib_fresh_eq lib_registered_def lib_emit_def lib_example_handlers_def
      bind_result_def)

text \<open>
  C8, amended. In the class of app.tsx: the callback that \<open>on\<close> returns is the call of \<open>off\<close>
  with the same event and listener; after \<open>on\<close> and then \<open>off\<close> the listener is not
  registered for the event, and an \<open>emit\<close> of the event then calls it zero times, as long
  as the listeners that do run do not register it again; \<open>off\<close> with a listener that is not
  registered for the event leaves a well-formed instance as it is (and \<open>off\<close> cannot throw:
  it is a total function on instances). In the class of nodeflow.ts, \<open>lib_on\<close> returns
  nothing and a listener is removed by \<open>lib_off\<close> only; for an event whose entry in the
  object of listeners is absent or an array (every event name that is not a property name
  of \<^verbatim>\<open>Object.prototype\<close>), \<open>lib_on\<close> and then \<open>lib_off\<close> return normally and leave the
  listener unregistered, a \<open>lib_emit\<close> of the event then calls it zero times under the
  same condition on the other listeners, and \<open>lib_off\<close> with a listener that is not
  registered returns normally and leaves the instance as it is.
\<close>

theorem on_then_off_silences:
  "(\<forall>j. fst (on type h i) j = Some (Return () (off type h j)))
   \<and> h \<notin> set (registered (off type h (snd (on type h i))) type)
   \<and> ((\<forall>l d. l \<noteq> h \<longrightarrow> leaves_unregistered h type (H l d)) \<and>
        emit H type data (off type h (snd (on type h i))) = Some r
        \<longrightarrow> not_called h type (trace i) (trace (inst_of r)))
   \<and> (registry_ok k \<and> h \<notin> set (registered k type) \<longrightarrow> off type h k = k)
   \<and> (lib_get i' event \<noteq> Some Inherited \<longrightarrow>
        lib_on event h i' = Return Undefined (lib_on_inst event h i')
        \<and> lib_off event h (lib_on_inst event h i') =
            Return () (lib_off_inst event h (lib_on_inst event h i'))
        \<and> h \<notin> set (lib_registered (lib_off_inst event h (lib_on_inst event h i')) event)
        \<and> ((\<forall>l d. l \<noteq> h \<longrightarrow> lib_leaves_unregistered h event (H' l d)) \<and>
             lib_emit H' event p (lib_off_inst event h (lib_on_inst event h i')) = Some r'
             \<longrightarrow> not_called h event (lib_trace i') (lib_trace (inst_of r'))))
   \<and> (lib_get k' event \<noteq> Some Inherited \<and> h \<notin> set (lib_registered k' event)
        \<longrightarrow> lib_off event h k' = Return () k')"
proof (intro conjI impI allI)
  fix j show "fst (on type h i) j = Some (Return () (off type h j))"
    by (simp add: on_def Let_def split: option.splits)
next
  show "h \<notin> set (registered (off type h (snd (on type h i))) type)"
    by (rule on_off_unregistered)
next
  assume a: "(\<forall>l d. l \<noteq> h \<longrightarrow> leaves_unregistered h type (H l d)) \<and>
        emit H type data (off type h (snd (on type h i))) = Some r"
  then have H: "\<And>l d. l \<noteq> h \<Longrightarrow> leaves_unregistered h type (H l d)" by simp
  from a have run: "emit H type data (off type h (snd (on type h i))) = Some r" by simp
  from emit_not_called [OF run H on_off_unregistered]
  show "not_called h type (trace i) (trace (inst_of r))" by (simp add: on_off_trace)
next
  assume "registry_ok k \<and> h \<notin> set (registered k type)"
  then show "off type h k = k" using off_unregistered_noop by blast
next
  assume "lib_get i' event \<noteq> Some Inherited"
  then show "lib_on event h i' = Return Undefined (lib_on_inst event h i')"
    using lib_on_returns by blast
next
  assume "lib_get i' event \<noteq> Some Inherited"
  then show "lib_off event h (lib_on_inst event h i') =
            Return () (lib_off_inst event h (lib_on_inst event h i'))"
    by (rule lib_on_off_unregistered(1))
next
  assume "lib_get i' event \<noteq> Some Inherited"
  then show "h \<notin> set (lib_registered (lib_off_inst event h (lib_on_inst event h i')) event)"
    by (rule lib_on_off_unregistered(2))
next
  assume g: "lib_get i' event \<noteq> Some Inherited"
  assume a: "(\<forall>l d. l \<noteq> h \<longrightarrow> lib_leaves_unregistered h event (H' l d)) \<and>
        lib_emit H' event p (lib_off_inst event h (lib_on_inst event h i')) = Some r'"
  then have H: "\<And>l d. l \<noteq> h \<Longrightarrow> lib_leaves_unregistered h event (H' l d)" by simp
  from a have run: "lib_emit H' event p (lib_off_inst event h (lib_on_inst event h i')) = Some r'" by simp
  from lib_emit_not_called [OF run H lib_on_off_unregistered(2) [OF g]]
  show "not_called h event (lib_trace i') (lib_trace (inst_of r'))"
    by (simp add: lib_on_off_unregistered(3) [OF g])
next
  assume "lib_get k' event \<noteq> Some Inherited \<and> h \<notin> set (lib_registered k' event)"
  then show "lib_off event h k' = Return () k'" using lib_off_unregistered_noop by blast
qed

theorem on_then_off_silences_witness:
  "(\<forall>l d. leaves_unregistered 2 ''ping'' (example_handlers l d))
   \<and> (\<forall>l d. lib_leaves_unregistered 2 ''ping'' (lib_example_handlers l d))
   \<and> fst (on ''ping'' 2 pinged) (snd (on ''ping'' 2 pinged)) =
       Some (Return () (off ''ping'' 2 (snd (on ''ping'' 2 pinged))))
   \<and> registered (snd (on ''ping'' 2 pinged)) ''ping'' = [3, 2]
   \<and> registered (off ''ping'' 2 (snd (on ''ping'' 2 pinged))) ''ping'' = [3]
   \<and> emit example_handlers ''ping'' (PVal (VNum 7)) (off ''ping'' 2 (snd (on ''ping'' 2 pinged))) =
       Some (Return () (pinged\<lparr>state := [''last'' \<mapsto> VNum 3],
         setData := (\<lambda>_. [])(0 := [Some 3, None]),
         trace := [Fired ''ping'' (PVal (VNum 7)), Invoked 3 ''ping'' (PVal (VNum 7))]\<rparr>))
   \<and> not_called 2 ''ping'' (trace pinged)
       [Fired ''ping'' (PVal (VNum 7)), Invoked 3 ''ping'' (PVal (VNum 7))]
   \<and> registry_ok pinged \<and> 2 \<notin> set (registered pinged ''ping'') \<and> off ''ping'' 2 pinged = pinged
   \<and> lib_get lib_pinged ''ping'' = Some (Arr [3])
   \<and> lib_on ''ping'' 2 lib_pinged = Return Undefined (lib_on_inst ''ping'' 2 lib_pinged)
   \<and> lib_registered (lib_on_inst ''ping'' 2 lib_pinged) ''ping'' = [3, 2]
   \<and> lib_off ''ping'' 2 (lib_on_inst ''ping'' 2 lib_pinged) =
       Return () (lib_off_inst ''ping'' 2 (lib_on_inst ''ping'' 2 lib_pinged))
   \<and> lib_registered (lib_off_inst ''ping'' 2 (lib_on_inst ''ping'' 2 lib_pinged)) ''ping'' = [3]
   \<and> lib_emit lib_example_handlers ''ping'' (PVal (VNum 7))
        (lib_off_inst ''ping'' 2 (lib_on_inst ''ping'' 2 lib_pinged)) =
       Some (Return () (lib_pinged\<lparr>lib_state := coreState(''last'' \<mapsto> VNum 3),
         lib_trace := [Fired ''ping'' (PVal (VNum 7)), Invoked 3 ''ping'' (PVal (VNum 7))]\<rparr>))
   \<and> not_called 2 ''ping'' (lib_trace lib_pinged)
       [Fired ''ping'' (PVal (VNum 7)), Invoked 3 ''ping'' (PVal (VNum 7))]
   \<and> 2 \<notin> set (lib_registered lib_pinged ''ping'') \<and> lib_off ''ping'' 2 lib_pinged = Return () lib_pinged"
proof -
  let ?d = "PVal (VNum 7)"
  let ?r = "Return () (pinged\<lparr>state := [''last'' \<mapsto> VNum 3],
         setData := (\<lambda>_. [])(0 := [Some 3, None]),
         trace := [Fired ''ping'' ?d, Invoked 3 ''ping'' ?d]\<rparr>)"
  let ?r' = "Return () (lib_pinged\<lparr>lib_state := coreState(''last'' \<mapsto> VNum 3),
         lib_trace := [Fired ''ping'' ?d, Invoked 3 ''ping'' ?d]\<rparr>)"
  have a: "\<forall>l d. leaves_unregistered 2 ''ping'' (example_handlers l d)"
    by (simp add: leaves_unregistered_example)
  have a': "\<forall>l d. lib_leaves_unregistered 2 ''ping'' (lib_example_handlers l d)"
    by (simp add: lib_leaves_unregistered_example)
  have b: "emit example_handlers ''ping'' ?d (off ''ping'' 2 (snd (on ''ping'' 2 pinged))) = Some ?r"
    by (simp add: pinged_on_off) (simp add: pinged_eq eval_simps example_handlers_def)
  have b': "lib_emit lib_example_handlers ''ping'' ?d (lib_off_inst ''ping'' 2 (lib_on_inst ''ping'' 2 lib_pinged)) = Some ?r'"
    by (simp add: lib_pinged_on_off)
       (simp add: lib_pinged_eq lib_fresh_eq lib_emit_def lib_get_def bind_result_def lib_example_handlers_def)
  have c: "registry_ok pinged" by (rule registry_ok_pinged)
  have e: "2 \<notin> set (registered pinged ''ping'')"
    by (simp add: pinged_eq registered_def List.map_filter_simps)
  have e': "2 \<notin> set (lib_registered lib_pinged ''ping'')"
    by (simp add: lib_pinged_eq lib_registered_def lib_get_def)
  have f: "registered (snd (on ''ping'' 2 pinged)) ''ping'' = [3, 2]"
    by (simp add: pinged_eq on_def set_add_def registered_def List.map_filter_simps)
  have f': "lib_registered (lib_on_inst ''ping'' 2 lib_pinged) ''ping'' = [3, 2]"
    by (simp add: lib_pinged_on lib_registered_def lib_get_def)
  have g: "registered (off ''ping'' 2 (snd (on ''ping'' 2 pinged))) ''ping'' = [3]"
    by (simp add: pinged_on_off) (simp add: pinged_eq registered_def List.map_filter_simps)
  have g': "lib_registered (lib_off_inst ''ping'' 2 (lib_on_inst ''ping'' 2 lib_pinged)) ''ping'' = [3]"
    by (simp add: lib_pinged_on_off) (simp add: lib_pinged_eq lib_registered_def lib_get_def)
  have h': "lib_get lib_pinged ''ping'' = Some (Arr [3])"
    by (simp add: lib_pinged_eq lib_get_def)
  then have n': "lib_get lib_pinged ''ping'' \<noteq> Some Inherited" by simp
  have t: "trace (inst_of ?r) = [Fired ''ping'' ?d, Invoked 3 ''ping'' ?d]"
    "lib_trace (inst_of ?r') = [Fired ''ping'' ?d, Invoked 3 ''ping'' ?d]" by simp_all
  note inst = on_then_off_silences [of "''ping''" 2 pinged example_handlers ?d ?r pinged
      lib_pinged "''ping''" lib_example_handlers ?d ?r' lib_pinged]
  from inst have 1: "fst (on ''ping'' 2 pinged) (snd (on ''ping'' 2 pinged)) =
       Some (Return () (off ''ping'' 2 (snd (on ''ping'' 2 pinged))))" by blast
  from inst a b have 2: "not_called 2 ''ping'' (trace pinged) (trace (inst_of ?r))" by blast
  from inst c e have 3: "off ''ping'' 2 pinged = pinged" by blast
  from inst n' have 6: "lib_on ''ping'' 2 lib_pinged = Return Undefined (lib_on_inst ''ping'' 2 lib_pinged)"
    and 7: "lib_off ''ping'' 2 (lib_on_inst ''ping'' 2 lib_pinged) =
       Return () (lib_off_inst ''ping'' 2 (lib_on_inst ''ping'' 2 lib_pinged))"
    by blast+
  from inst n' a' b' have 4: "not_called 2 ''ping'' (lib_trace lib_pinged) (lib_trace (inst_of ?r'))" by blast
  from inst n' e' have 5: "lib_off ''ping'' 2 lib_pinged = Return () lib_pinged" by blast
  from a a' 1 f g b 2 c e 3 h' 6 f' 7 g' b' 4 e' 5 show ?thesis
    unfolding t by (intro conjI)
qed

section \<open>The plugin lifecycle: init and teardown\<close>

lemma run_inits_ran: "thunks_ran inits i cs j \<Longrightarrow> run_inits inits i = Some (Return cs j)"
  by (induction rule: thunks_ran.induct) (simp_all add: bind_result_def)

lemma ran_run_inits: "run_inits inits i = Some (Return cs j) \<Longrightarrow> thunks_ran inits i cs j"
proof (induction inits arbitrary: i cs)
  case Nil
  then show ?case by (simp add: thunks_ran.none)
next
  case (Cons t ts)
  from Cons.prems obtain c k where 1: "t i = Some (Return c k)"
    and 2: "bind_result (run_inits ts k) (\<lambda>cs k'. Some (Return (c # cs) k')) = Some (Return cs j)"
    using bind_result_Return [of "t i"] by fastforce
  from 2 obtain cs' where 3: "run_inits ts k = Some (Return cs' j)" and 4: "cs = c # cs'"
    using bind_result_Return [of "run_inits ts k"] by fastforce
  from Cons.IH [OF 3] 1 4 show ?case by (simp add: thunks_ran.first)
qed

lemma backwards_snoc:
  "cleanups_ran_backwards (cs @ [c]) a b \<longleftrightarrow>
     (\<exists>j. c a = Some (Return () j) \<and> cleanups_ran_backwards cs j b)"
proof
  assume "cleanups_ran_backwards (cs @ [c]) a b"
  then show "\<exists>j. c a = Some (Return () j) \<and> cleanups_ran_backwards cs j b"
    by (cases rule: cleanups_ran_backwards.cases) auto
next
  assume "\<exists>j. c a = Some (Return () j) \<and> cleanups_ran_backwards cs j b"
  then show "cleanups_ran_backwards (cs @ [c]) a b"
    by (auto intro: cleanups_ran_backwards.last_first)
qed

lemma backwards_Nil: "cleanups_ran_backwards [] a b \<longleftrightarrow> a = b"
  by (auto intro: cleanups_ran_backwards.none elim: cleanups_ran_backwards.cases)

lemma run_cleanups_rev:
  "run_cleanups (rev cs) a = Some (Return () b) \<longleftrightarrow> cleanups_ran_backwards cs a b"
proof (induction cs arbitrary: a rule: rev_induct)
  case Nil
  show ?case by (auto simp: backwards_Nil)
next
  case (snoc c cs)
  show ?case
  proof (cases "c a")
    case None
    then show ?thesis by (simp add: backwards_snoc bind_result_def)
  next
    case (Some r)
    then show ?thesis using snoc.IH by (cases r) (simp_all add: backwards_snoc bind_result_def)
  qed
qed

lemma append_order_eq:
  "append_order w i = Some (Return () (i\<lparr>state := (state i)(''order'' \<mapsto> VStr (order_of i @ w))\<rparr>))"
  by (simp add: append_order_def order_of_def)

lemma order_of_upd [simp]: "order_of (i\<lparr>state := (state i)(''order'' \<mapsto> VStr v)\<rparr>) = v"
  by (simp add: order_of_def)

lemma probe_eq:
  "probe n i = Some (Return (append_order (''c'' @ n))
     (i\<lparr>state := (state i)(''order'' \<mapsto> VStr (order_of i @ ''i'' @ n))\<rparr>))"
  by (simp add: probe_def append_order_eq bind_result_def)

lemma order_step: "(with_order v)\<lparr>state := (state (with_order v))(''order'' \<mapsto> VStr w)\<rparr> = with_order w"
  by (simp add: with_order_def)

lemma order_of_with [simp]: "order_of (with_order v) = v"
  by (simp add: with_order_def order_of_def)

lemma probe_with: "probe n (with_order v) = Some (Return (append_order (''c'' @ n)) (with_order (v @ ''i'' @ n)))"
  by (simp add: probe_eq order_step)

lemma append_with: "append_order w (with_order v) = Some (Return () (with_order (v @ w)))"
  by (simp add: append_order_eq order_step)

lemma probes_ran:
  "thunks_ran [probe ''A'', probe ''B'', probe ''C''] (with_order [])
     [append_order ''cA'', append_order ''cB'', append_order ''cC''] (with_order ''iAiBiC'')"
proof -
  have 1: "probe ''A'' (with_order []) = Some (Return (append_order ''cA'') (with_order ''iA''))"
    using probe_with [of "''A''" "[]"] by simp
  have 2: "probe ''B'' (with_order ''iA'') = Some (Return (append_order ''cB'') (with_order ''iAiB''))"
    using probe_with [of "''B''" "''iA''"] by simp
  have 3: "probe ''C'' (with_order ''iAiB'') = Some (Return (append_order ''cC'') (with_order ''iAiBiC''))"
    using probe_with [of "''C''" "''iAiB''"] by simp
  show ?thesis
    by (rule thunks_ran.first, rule 1, rule thunks_ran.first, rule 2,
        rule thunks_ran.first, rule 3, rule thunks_ran.none)
qed

lemma cleanups_backwards:
  "cleanups_ran_backwards [append_order ''cA'', append_order ''cB'', append_order ''cC'']
     (with_order ''iAiBiC'') (with_order ''iAiBiCcCcBcA'')"
proof -
  have 1: "append_order ''cC'' (with_order ''iAiBiC'') = Some (Return () (with_order ''iAiBiCcC''))"
    using append_with [of "''cC''" "''iAiBiC''"] by simp
  have 2: "append_order ''cB'' (with_order ''iAiBiCcC'') = Some (Return () (with_order ''iAiBiCcCcB''))"
    using append_with [of "''cB''" "''iAiBiCcC''"] by simp
  have 3: "append_order ''cA'' (with_order ''iAiBiCcCcB'') = Some (Return () (with_order ''iAiBiCcCcBcA''))"
    using append_with [of "''cA''" "''iAiBiCcCcB''"] by simp
  have s1: "cleanups_ran_backwards ([] @ [append_order ''cA'']) (with_order ''iAiBiCcCcB'') (with_order ''iAiBiCcCcBcA'')"
    unfolding backwards_snoc backwards_Nil using 3 by simp
  have s2: "cleanups_ran_backwards ([append_order ''cA''] @ [append_order ''cB''])
      (with_order ''iAiBiCcC'') (with_order ''iAiBiCcCcBcA'')"
    unfolding backwards_snoc using 2 s1 by simp
  have "cleanups_ran_backwards ([append_order ''cA'', append_order ''cB''] @ [append_order ''cC''])
      (with_order ''iAiBiC'') (with_order ''iAiBiCcCcBcA'')"
    unfolding backwards_snoc using 1 s2 by simp
  then show ?thesis by simp
qed

text \<open>
  C5. The function that \<open>create\<close> stores in \<^verbatim>\<open>_init\<close>, for every list of init thunks:
  when the thunks, called in registration order, return the cleanups \<open>cs\<close>, the composed
  \<^verbatim>\<open>_init\<close> returns, has left the instance they left, and the teardown it returns is
  the run of the cleanups in reverse registration order (the cleanup of the last plugin
  first, that of the first plugin last); and whenever the composed \<^verbatim>\<open>_init\<close> returns
  a teardown, the thunks have run in registration order and the teardown is that run.
\<close>

theorem teardown_reverse_order:
  "(thunks_ran inits i cs j \<longrightarrow>
      (\<exists>teardown. composed_init inits i = Some (Return teardown j) \<and>
         (\<forall>a b. teardown a = Some (Return () b) \<longleftrightarrow> cleanups_ran_backwards cs a b)))
   \<and> (composed_init inits i = Some (Return teardown' j') \<longrightarrow>
      (\<exists>cs'. thunks_ran inits i cs' j' \<and>
         (\<forall>a b. teardown' a = Some (Return () b) \<longleftrightarrow> cleanups_ran_backwards cs' a b)))"
proof (intro conjI impI)
  assume "thunks_ran inits i cs j"
  then have "run_inits inits i = Some (Return cs j)" by (rule run_inits_ran)
  then have "composed_init inits i = Some (Return (run_cleanups (rev cs)) j)"
    by (simp add: composed_init_def bind_result_def)
  then show "\<exists>teardown. composed_init inits i = Some (Return teardown j) \<and>
         (\<forall>a b. teardown a = Some (Return () b) \<longleftrightarrow> cleanups_ran_backwards cs a b)"
    by (simp add: run_cleanups_rev)
next
  assume "composed_init inits i = Some (Return teardown' j')"
  then obtain cs' where 1: "run_inits inits i = Some (Return cs' j')"
    and 2: "teardown' = run_cleanups (rev cs')"
    unfolding composed_init_def using bind_result_Return [of "run_inits inits i"]
    by (fastforce simp: Let_def)
  from ran_run_inits [OF 1] 2
  show "\<exists>cs'. thunks_ran inits i cs' j' \<and>
         (\<forall>a b. teardown' a = Some (Return () b) \<longleftrightarrow> cleanups_ran_backwards cs' a b)"
    by (auto simp: run_cleanups_rev)
qed

theorem teardown_reverse_order_witness:
  "thunks_ran [probe ''A'', probe ''B'', probe ''C''] (with_order [])
     [append_order ''cA'', append_order ''cB'', append_order ''cC''] (with_order ''iAiBiC'')
   \<and> (\<exists>teardown. composed_init [probe ''A'', probe ''B'', probe ''C''] (with_order []) =
          Some (Return teardown (with_order ''iAiBiC''))
        \<and> teardown (with_order ''iAiBiC'') = Some (Return () (with_order ''iAiBiCcCcBcA'')))"
proof -
  from teardown_reverse_order [of "[probe ''A'', probe ''B'', probe ''C'']" "with_order []"
      "[append_order ''cA'', append_order ''cB'', append_order ''cC'']" "with_order ''iAiBiC''"]
    probes_ran
  obtain teardown where
    1: "composed_init [probe ''A'', probe ''B'', probe ''C''] (with_order []) =
          Some (Return teardown (with_order ''iAiBiC''))"
    and 2: "\<forall>a b. teardown a = Some (Return () b) \<longleftrightarrow>
       cleanups_ran_backwards [append_order ''cA'', append_order ''cB'', append_order ''cC''] a b"
    by blast
  from 2 cleanups_backwards
  have "teardown (with_order ''iAiBiC'') = Some (Return () (with_order ''iAiBiCcCcBcA''))" by blast
  with 1 probes_ran show ?thesis by blast
qed

lemma repeat_call_noop:
  "(\<And>k. initialized k \<Longrightarrow> f k = Some (Return () k)) \<Longrightarrow> initialized j \<Longrightarrow>
   repeat_call n f j = Some (Return () j)"
  by (induction n) (simp_all add: bind_result_def)

lemma init_again: "initialized k \<Longrightarrow> init f k = Some (Return () k)"
  by (simp add: init_def)

lemma count_run_ran:
  "thunks_ran [count_run] ((new_NodeFlow\<lparr>state := [''runs'' \<mapsto> VNum 0]\<rparr>)\<lparr>initialized := True\<rparr>)
     [noop] (with_runs 1)"
proof -
  have "count_run ((new_NodeFlow\<lparr>state := [''runs'' \<mapsto> VNum 0]\<rparr>)\<lparr>initialized := True\<rparr>) =
      Some (Return noop (with_runs 1))"
    by (simp add: count_run_def with_runs_def new_NodeFlow_def)
  then show ?thesis by (rule thunks_ran.first) (rule thunks_ran.none)
qed

text \<open>
  C6. On an instance that is not initialized, the first \<open>init()\<close> sets \<^verbatim>\<open>initialized\<close>
  and runs the collected init thunks, each once, in registration order; every \<open>init()\<close>
  on an initialized instance returns it unchanged. So any number of \<open>init()\<close> calls, one
  or more, leaves the instance that one run of the thunks leaves: each thunk has been
  called exactly once. (The thunks return normally and do not reset the private flag.)
\<close>

theorem init_idempotent:
  assumes "\<not> initialized i" and "thunks_ran inits (i\<lparr>initialized := True\<rparr>) cs j" and "initialized j"
  shows "init (composed_init inits) i = Some (Return () j)
     \<and> (\<forall>n. repeat_call (Suc n) (init (composed_init inits)) i = Some (Return () j))
     \<and> (\<forall>f k. initialized k \<longrightarrow> init f k = Some (Return () k))"
proof -
  have "run_inits inits (i\<lparr>initialized := True\<rparr>) = Some (Return cs j)"
    using assms(2) by (rule run_inits_ran)
  then have 1: "init (composed_init inits) i = Some (Return () j)"
    using assms(1) by (simp add: init_def composed_init_def bind_result_def)
  have 2: "repeat_call n (init (composed_init inits)) j = Some (Return () j)" for n
    using init_again assms(3) by (rule repeat_call_noop)
  have "repeat_call (Suc n) (init (composed_init inits)) i = Some (Return () j)" for n
    using 1 2 [of n] by (simp add: bind_result_def)
  with 1 init_again show ?thesis by blast
qed

theorem init_idempotent_witness:
  "\<not> initialized (new_NodeFlow\<lparr>state := [''runs'' \<mapsto> VNum 0]\<rparr>)
   \<and> thunks_ran [count_run] ((new_NodeFlow\<lparr>state := [''runs'' \<mapsto> VNum 0]\<rparr>)\<lparr>initialized := True\<rparr>)
        [noop] (with_runs 1)
   \<and> initialized (with_runs 1)
   \<and> state (with_runs 1) ''runs'' = Some (VNum 1)
   \<and> init (composed_init [count_run]) (new_NodeFlow\<lparr>state := [''runs'' \<mapsto> VNum 0]\<rparr>) =
        Some (Return () (with_runs 1))
   \<and> repeat_call 3 (init (composed_init [count_run])) (new_NodeFlow\<lparr>state := [''runs'' \<mapsto> VNum 0]\<rparr>) =
        Some (Return () (with_runs 1))
   \<and> init default_init (with_runs 1) = Some (Return () (with_runs 1))"
proof -
  let ?i = "new_NodeFlow\<lparr>state := [''runs'' \<mapsto> VNum 0]\<rparr>"
  have a: "\<not> initialized ?i" by (simp add: new_NodeFlow_def)
  have b: "initialized (with_runs 1)" by (simp add: with_runs_def)
  have c: "state (with_runs 1) ''runs'' = Some (VNum 1)" by (simp add: with_runs_def)
  note inst = init_idempotent [OF a count_run_ran b]
  from inst have 1: "init (composed_init [count_run]) ?i = Some (Return () (with_runs 1))" by blast
  from inst have "repeat_call (Suc 2) (init (composed_init [count_run])) ?i = Some (Return () (with_runs 1))"
    by blast
  then have 2: "repeat_call 3 (init (composed_init [count_run])) ?i = Some (Return () (with_runs 1))"
    by (simp add: numeral_3_eq_3)
  from inst b have 3: "init default_init (with_runs 1) = Some (Return () (with_runs 1))" by blast
  from a count_run_ran b c 1 2 3 show ?thesis by (intro conjI)
qed

section \<open>Composition: create and createNodeFlow\<close>












end
